theory Spec2Isabelle
  imports Complex_Main "HOL-Library.AList"
begin

section \<open>Decoded JSON and the Python operations the code applies to it\<close>

text \<open>
  The aggregator of \<^verbatim>\<open>github_stats.py\<close> works on whatever the JSON decoder returns.
  A decoded value is \<open>None\<close>, a bool, an int, a str, a list or a dict; numbers with a
  fraction are left out (every number the code reads is a count). A dict is an association
  list read with \<open>map_of\<close>; strings are ASCII.
\<close>

datatype json =
    JNull
  | JBool bool
  | JInt int
  | JStr string
  | JList "json list"
  | JObj "(string \<times> json) list"

text \<open>The exceptions the modelled code can raise; \<open>RequestError\<close> stands for any exception
  of the HTTP clients (connection failure, undecodable body).\<close>

datatype error =
    AttributeError
  | TypeError
  | KeyError
  | ValueError
  | AssertionError
  | RequestError

definition bindE :: "error + 'a \<Rightarrow> ('a \<Rightarrow> error + 'b) \<Rightarrow> error + 'b" where
  "bindE m f = (case m of Inl e \<Rightarrow> Inl e | Inr v \<Rightarrow> f v)"

text \<open>\<^verbatim>\<open>x.get(k, d)\<close>: only a dict has the method.\<close>

fun dict_get :: "json \<Rightarrow> string \<Rightarrow> json \<Rightarrow> error + json" where
  "dict_get (JObj kvs) k d = Inr (case map_of kvs k of Some v \<Rightarrow> v | None \<Rightarrow> d)"
| "dict_get _ k d = Inl AttributeError"

text \<open>Truth value of an object, as \<^verbatim>\<open>if x\<close>, \<^verbatim>\<open>not x\<close> and \<^verbatim>\<open>x or y\<close> take it.\<close>

fun truthy :: "json \<Rightarrow> bool" where
  "truthy JNull = False"
| "truthy (JBool b) = b"
| "truthy (JInt n) = (n \<noteq> 0)"
| "truthy (JStr s) = (s \<noteq> [])"
| "truthy (JList xs) = (xs \<noteq> [])"
| "truthy (JObj kvs) = (kvs \<noteq> [])"

text \<open>The integer a value counts as in arithmetic: \<open>bool\<close> is a subclass of \<open>int\<close>.\<close>

fun num_of :: "json \<Rightarrow> int option" where
  "num_of (JInt n) = Some n"
| "num_of (JBool b) = Some (if b then 1 else 0)"
| "num_of _ = None"

text \<open>\<^verbatim>\<open>for x in v\<close>: a list gives its elements, a str its characters, a dict its keys.\<close>

fun py_iter :: "json \<Rightarrow> error + json list" where
  "py_iter (JList xs) = Inr xs"
| "py_iter (JStr s) = Inr (map (\<lambda>c. JStr [c]) s)"
| "py_iter (JObj kvs) = Inr (map (\<lambda>kv. JStr (fst kv)) (AList.clearjunk kvs))"
| "py_iter _ = Inl TypeError"

text \<open>\<^verbatim>\<open>a + b\<close>.\<close>

fun py_add :: "json \<Rightarrow> json \<Rightarrow> error + json" where
  "py_add (JStr s) (JStr t) = Inr (JStr (s @ t))"
| "py_add (JList xs) (JList ys) = Inr (JList (xs @ ys))"
| "py_add a b = (case (num_of a, num_of b) of
                   (Some m, Some n) \<Rightarrow> Inr (JInt (m + n))
                 | _ \<Rightarrow> Inl TypeError)"

text \<open>\<^verbatim>\<open>a += b\<close>: a list is extended by any iterable, everything else is \<^verbatim>\<open>a + b\<close>.\<close>

fun py_iadd :: "json \<Rightarrow> json \<Rightarrow> error + json" where
  "py_iadd (JList xs) b = (case py_iter b of Inr ys \<Rightarrow> Inr (JList (xs @ ys)) | Inl e \<Rightarrow> Inl TypeError)"
| "py_iadd a b = py_add a b"

text \<open>\<^verbatim>\<open>n += v\<close> for an accumulator \<open>n\<close> that holds an int.\<close>

definition int_iadd :: "int \<Rightarrow> json \<Rightarrow> error + int" where
  "int_iadd n v = (case num_of v of Some m \<Rightarrow> Inr (n + m) | None \<Rightarrow> Inl TypeError)"

text \<open>\<^verbatim>\<open>s.lower()\<close> on ASCII; a value that is not a str has no such method.\<close>

definition lower_char :: "char \<Rightarrow> char" where
  "lower_char c =
     (let n = (of_char c :: nat) in if 65 \<le> n \<and> n \<le> 90 then char_of (n + 32) else c)"

fun py_lower :: "json \<Rightarrow> error + string" where
  "py_lower (JStr s) = Inr (map lower_char s)"
| "py_lower _ = Inl AttributeError"

section \<open>Transport\<close>

text \<open>
  One HTTP call either raises or returns a response with a status, whose body decodes
  to a value or raises on decoding. The network is a parameter: the \<open>i\<close>-th exchange the
  process makes, for a given request, has an outcome for the asynchronous client and one
  for the synchronous client the code falls back on. The semaphore and the sleeps are not
  modelled.
\<close>

datatype http_result = ConnError | Resp nat "json option"

datatype request = Post string | Get string

type_synonym network = "nat \<Rightarrow> request \<Rightarrow> http_result \<times> http_result"

text \<open>The call followed by \<^verbatim>\<open>.json()\<close>.\<close>

fun json_of :: "http_result \<Rightarrow> error + json" where
  "json_of ConnError = Inl RequestError"
| "json_of (Resp st None) = Inl RequestError"
| "json_of (Resp st (Some j)) = Inr j"

text \<open>\<^verbatim>\<open>Queries.query\<close>. The handler of the first \<^verbatim>\<open>try\<close> runs the synchronous request
  outside any \<^verbatim>\<open>try\<close>.\<close>

definition query :: "network \<Rightarrow> nat \<Rightarrow> string \<Rightarrow> (error + json) \<times> nat" where
  "query net i generated_query =
     (case net i (Post generated_query) of (r_async, r_requests) \<Rightarrow>
        ((case json_of r_async of
            Inr result \<Rightarrow> if result \<noteq> JNull then Inr result else Inr (JObj [])
          | Inl _ \<Rightarrow>
              (case json_of r_requests of
                 Inr result \<Rightarrow> if result \<noteq> JNull then Inr result else Inr (JObj [])
               | Inl e \<Rightarrow> Inl e)),
         Suc i))"


text \<open>\<^verbatim>\<open>Queries.query_rest\<close>: sixty attempts; \<open>k\<close> counts the attempts that remain. The
  leading slash is cut inside the loop, and a body that decodes to \<open>None\<close> goes on to the
  next attempt. The request headers and the (always empty) parameters are not part of the
  model.\<close>

definition strip_slash :: "string \<Rightarrow> string" where
  "strip_slash path = (case path of c # cs \<Rightarrow> if c = CHR ''/'' then cs else path | [] \<Rightarrow> path)"

fun rest_attempts :: "network \<Rightarrow> nat \<Rightarrow> string \<Rightarrow> nat \<Rightarrow> json \<times> nat" where
  "rest_attempts net i path 0 = (JObj [], i)"
| "rest_attempts net i path (Suc k) =
     (let path' = strip_slash path;
          continue = rest_attempts net (Suc i) path' k;
          fall_back =
            (case snd (net i (Get path')) of
               ConnError \<Rightarrow> continue
             | Resp st body \<Rightarrow>
                 if st = 202 then continue
                 else if st = 403 then continue
                 else if st = 404 then (JObj [], Suc i)
                 else if st = 200 then
                   (case body of
                      None \<Rightarrow> continue
                    | Some result_json \<Rightarrow>
                        if result_json \<noteq> JNull then (result_json, Suc i) else continue)
                 else continue)
      in case fst (net i (Get path')) of
           ConnError \<Rightarrow> fall_back
         | Resp st body \<Rightarrow>
             if st = 202 then continue
             else if st = 403 then continue
             else if st = 404 then (JObj [], Suc i)
             else (case body of
                     None \<Rightarrow> fall_back
                   | Some result \<Rightarrow> if result \<noteq> JNull then (result, Suc i) else continue))"

declare rest_attempts.simps [simp del]

definition query_rest :: "network \<Rightarrow> nat \<Rightarrow> string \<Rightarrow> json \<times> nat" where
  "query_rest net i path = rest_attempts net i path 60"

text \<open>For claim C7, in the words of the specification: the status a REST request receives in
  one exchange. It is the status of the asynchronous client's response, or, when that client
  fails (the call raises, or the body of a response with another status than 202, 403 and 404
  does not decode), the status of the synchronous client's response. \<open>path_at path j\<close> is
  the path of attempt \<open>j\<close>, counted from 0.\<close>

definition receives :: "nat \<Rightarrow> http_result \<times> http_result \<Rightarrow> bool" where
  "receives status x =
     (let sync = (case snd x of ConnError \<Rightarrow> False | Resp s' b' \<Rightarrow> s' = status) in
      case fst x of
        ConnError \<Rightarrow> sync
      | Resp s b \<Rightarrow> s = status \<or> (s \<noteq> 202 \<and> s \<noteq> 403 \<and> s \<noteq> 404 \<and> b = None \<and> sync))"

definition path_at :: "string \<Rightarrow> nat \<Rightarrow> string" where
  "path_at path j = (strip_slash ^^ Suc j) path"

section \<open>Query builder\<close>

text \<open>Decimal digits of a number, for \<^verbatim>\<open>str\<close> and the f-strings.\<close>

fun str_of_nat :: "nat \<Rightarrow> string" where
  "str_of_nat n =
     (if n < 10 then [char_of (48 + n)] else str_of_nat (n div 10) @ [char_of (48 + n mod 10)])"

declare str_of_nat.simps [simp del]

definition str_of_int :: "int \<Rightarrow> string" where
  "str_of_int n = (if n < 0 then CHR ''-'' # str_of_nat (nat (- n)) else str_of_nat (nat n))"

text \<open>\<^verbatim>\<open>str(v)\<close>, as an f-string formats a value, for the values that are not containers.\<close>

fun py_str :: "json \<Rightarrow> string option" where
  "py_str JNull = Some ''None''"
| "py_str (JBool b) = Some (if b then ''True'' else ''False'')"
| "py_str (JInt n) = Some (str_of_int n)"
| "py_str (JStr s) = Some s"
| "py_str _ = None"

text \<open>\<^verbatim>\<open>int(v)\<close>. A str is stripped of white space (for an ASCII str: space, tab, line
  feed, vertical tab, form feed and carriage return), may carry a sign, and is a run of
  decimal digits, with single underscores allowed between digits. (The interpreter's limit
  on the number of digits is not modelled.)\<close>

definition is_space :: "char \<Rightarrow> bool" where
  "is_space c = (let n = (of_char c :: nat) in (9 \<le> n \<and> n \<le> 13) \<or> n = 32)"

definition digit_val :: "char \<Rightarrow> nat option" where
  "digit_val c = (let n = (of_char c :: nat) in if 48 \<le> n \<and> n \<le> 57 then Some (n - 48) else None)"

fun parse_digits :: "bool \<Rightarrow> string \<Rightarrow> nat \<Rightarrow> nat option" where
  "parse_digits prev [] acc = (if prev then Some acc else None)"
| "parse_digits prev (c # cs) acc =
     (case digit_val c of
        Some d \<Rightarrow> parse_digits True cs (10 * acc + d)
      | None \<Rightarrow> if c = CHR ''_'' \<and> prev \<and> cs \<noteq> [] then parse_digits False cs acc else None)"

definition strip :: "string \<Rightarrow> string" where
  "strip s = rev (dropWhile is_space (rev (dropWhile is_space s)))"

definition int_of_str :: "string \<Rightarrow> int option" where
  "int_of_str s =
     (case strip s of
        [] \<Rightarrow> None
      | c # cs \<Rightarrow>
          if c = CHR ''-'' then map_option (\<lambda>n. - int n) (parse_digits False cs 0)
          else if c = CHR ''+'' then map_option int (parse_digits False cs 0)
          else map_option int (parse_digits False (c # cs) 0))"

fun py_int :: "json \<Rightarrow> error + int" where
  "py_int (JInt n) = Inr n"
| "py_int (JBool b) = Inr (if b then 1 else 0)"
| "py_int (JStr s) = (case int_of_str s of Some n \<Rightarrow> Inr n | None \<Rightarrow> Inl ValueError)"
| "py_int _ = Inl TypeError"

text \<open>The fixed text of each query, line by line as in the source.\<close>

definition contrib_years :: string where
  \<open>contrib_years =
     ''\<newline>'' @
     ''query {\<newline>'' @
     ''  viewer {\<newline>'' @
     ''    contributionsCollection {\<newline>'' @
     ''      contributionYears\<newline>'' @
     ''    }\<newline>'' @
     ''  }\<newline>'' @
     ''}\<newline>''\<close>
definition repos_overview_head :: string where
  \<open>repos_overview_head =
     ''{\<newline>'' @
     ''  viewer {\<newline>'' @
     ''    login\<newline>'' @
     ''    name\<newline>'' @
     ''    repositories(\<newline>'' @
     ''        first: 100,\<newline>'' @
     ''        orderBy: {\<newline>'' @
     ''            field: UPDATED_AT,\<newline>'' @
     ''            direction: DESC\<newline>'' @
     ''        },\<newline>'' @
     ''        isFork: false,\<newline>'' @
     ''        after: ''\<close>
definition repos_overview_mid :: string where
  \<open>repos_overview_mid =
     ''\<newline>'' @
     ''    ) {\<newline>'' @
     ''      pageInfo {\<newline>'' @
     ''        hasNextPage\<newline>'' @
     ''        endCursor\<newline>'' @
     ''      }\<newline>'' @
     ''      nodes {\<newline>'' @
     ''        nameWithOwner\<newline>'' @
     ''        stargazers {\<newline>'' @
     ''          totalCount\<newline>'' @
     ''        }\<newline>'' @
     ''        forkCount\<newline>'' @
     ''        languages(first: 10, orderBy: {field: SIZE, direction: DESC}) {\<newline>'' @
     ''          edges {\<newline>'' @
     ''            size\<newline>'' @
     ''            node {\<newline>'' @
     ''              name\<newline>'' @
     ''              color\<newline>'' @
     ''            }\<newline>'' @
     ''          }\<newline>'' @
     ''        }\<newline>'' @
     ''      }\<newline>'' @
     ''    }\<newline>'' @
     ''    repositoriesContributedTo(\<newline>'' @
     ''        first: 100,\<newline>'' @
     ''        includeUserRepositories: false,\<newline>'' @
     ''        orderBy: {\<newline>'' @
     ''            field: UPDATED_AT,\<newline>'' @
     ''            direction: DESC\<newline>'' @
     ''        },\<newline>'' @
     ''        contributionTypes: [\<newline>'' @
     ''            COMMIT,\<newline>'' @
     ''            PULL_REQUEST,\<newline>'' @
     ''            REPOSITORY,\<newline>'' @
     ''            PULL_REQUEST_REVIEW\<newline>'' @
     ''        ]\<newline>'' @
     ''        after: ''\<close>
definition repos_overview_tail :: string where
  \<open>repos_overview_tail =
     ''\<newline>'' @
     ''    ) {\<newline>'' @
     ''      pageInfo {\<newline>'' @
     ''        hasNextPage\<newline>'' @
     ''        endCursor\<newline>'' @
     ''      }\<newline>'' @
     ''      nodes {\<newline>'' @
     ''        nameWithOwner\<newline>'' @
     ''        stargazers {\<newline>'' @
     ''          totalCount\<newline>'' @
     ''        }\<newline>'' @
     ''        forkCount\<newline>'' @
     ''        languages(first: 10, orderBy: {field: SIZE, direction: DESC}) {\<newline>'' @
     ''          edges {\<newline>'' @
     ''            size\<newline>'' @
     ''            node {\<newline>'' @
     ''              name\<newline>'' @
     ''              color\<newline>'' @
     ''            }\<newline>'' @
     ''          }\<newline>'' @
     ''        }\<newline>'' @
     ''      }\<newline>'' @
     ''    }\<newline>'' @
     ''  }\<newline>'' @
     ''}\<newline>''\<close>
text \<open>\<^verbatim>\<open>"null" if cursor is None else '"' + cursor + '"'\<close>: a cursor that is neither
  \<open>None\<close> nor a str cannot be concatenated.\<close>

fun cursor_text :: "json \<Rightarrow> error + string" where
  "cursor_text JNull = Inr ''null''"
| "cursor_text (JStr c) = Inr ([CHR 0x22] @ c @ [CHR 0x22])"
| "cursor_text _ = Inl TypeError"

definition repos_overview :: "json \<Rightarrow> json \<Rightarrow> error + string" where
  "repos_overview contrib_cursor owned_cursor =
     bindE (cursor_text owned_cursor) (\<lambda>owned.
     bindE (cursor_text contrib_cursor) (\<lambda>contrib.
       Inr (repos_overview_head @ owned @ repos_overview_mid @ contrib @ repos_overview_tail)))"

definition contribs_by_year_1 :: string where
  \<open>contribs_by_year_1 =
     ''\<newline>'' @
     ''    year''\<close>

definition contribs_by_year_2 :: string where
  \<open>contribs_by_year_2 =
     '': contributionsCollection(\<newline>'' @
     ''        from: "''\<close>

definition contribs_by_year_3 :: string where
  \<open>contribs_by_year_3 =
     ''-01-01T00:00:00Z",\<newline>'' @
     ''        to: "''\<close>

definition contribs_by_year_4 :: string where
  \<open>contribs_by_year_4 =
     ''-01-01T00:00:00Z"\<newline>'' @
     ''    ) {\<newline>'' @
     ''      contributionCalendar {\<newline>'' @
     ''        totalContributions\<newline>'' @
     ''      }\<newline>'' @
     ''    }\<newline>''\<close>

definition contribs_by_year :: "json \<Rightarrow> error + string" where
  "contribs_by_year year =
     (case py_str year of
        None \<Rightarrow> Inl TypeError
      | Some y \<Rightarrow>
          bindE (py_int year) (\<lambda>n.
            Inr (contribs_by_year_1 @ y @ contribs_by_year_2 @ y @ contribs_by_year_3 @
                 str_of_int (n + 1) @ contribs_by_year_4)))"

definition all_contribs_head :: string where
  \<open>all_contribs_head =
     ''\<newline>'' @
     ''query {\<newline>'' @
     ''  viewer {\<newline>'' @
     ''    ''\<close>
definition all_contribs_tail :: string where
  \<open>all_contribs_tail =
     ''\<newline>'' @
     ''  }\<newline>'' @
     ''}\<newline>''\<close>
text \<open>\<^verbatim>\<open>"\n".join(...)\<close> and \<^verbatim>\<open>map\<close> with a function that may raise.\<close>

fun join_lines :: "string list \<Rightarrow> string" where
  "join_lines [] = []"
| "join_lines [x] = x"
| "join_lines (x # y # ys) = x @ [CHR 0x0A] @ join_lines (y # ys)"

fun mapE :: "('a \<Rightarrow> error + 'b) \<Rightarrow> 'a list \<Rightarrow> error + 'b list" where
  "mapE f [] = Inr []"
| "mapE f (x # xs) = bindE (f x) (\<lambda>y. bindE (mapE f xs) (\<lambda>ys. Inr (y # ys)))"

definition all_contribs :: "json \<Rightarrow> error + string" where
  "all_contribs years =
     bindE (py_iter years) (\<lambda>ys.
     bindE (mapE contribs_by_year ys) (\<lambda>by_years.
       Inr (all_contribs_head @ join_lines by_years @ all_contribs_tail)))"

definition commits_query_email_head :: string where
  \<open>commits_query_email_head =
     ''\<newline>'' @
     ''                query {\<newline>'' @
     ''                  user(login: "''\<close>
definition commits_query_email_tail :: string where
  \<open>commits_query_email_tail =
     ''") {\<newline>'' @
     ''                    contributionsCollection {\<newline>'' @
     ''                      totalCommitContributions\<newline>'' @
     ''                    }\<newline>'' @
     ''                  }\<newline>'' @
     ''                }\<newline>'' @
     ''                ''\<close>
definition commits_query_user_head :: string where
  \<open>commits_query_user_head =
     ''\<newline>'' @
     ''            query {\<newline>'' @
     ''              user(login: "''\<close>
definition commits_query_user_tail :: string where
  \<open>commits_query_user_tail =
     ''") {\<newline>'' @
     ''                contributionsCollection {\<newline>'' @
     ''                  totalCommitContributions\<newline>'' @
     ''                }\<newline>'' @
     ''              }\<newline>'' @
     ''            }\<newline>'' @
     ''            ''\<close>

section \<open>The aggregator\<close>

text \<open>One entry of \<^verbatim>\<open>Stats._languages\<close>: the dict with the keys \<^verbatim>\<open>size\<close>,
  \<^verbatim>\<open>occurrences\<close>, \<^verbatim>\<open>color\<close> and, once the fetch is over, \<^verbatim>\<open>prop\<close>. The size is
  whatever the first edge of the language carried; the proportion is a Python float, taken
  here as the real number it approximates.\<close>

record lang_entry =
  size_l :: json
  occurrences :: int
  color :: json
  prop_l :: "real option"

text \<open>The attributes of a \<^verbatim>\<open>Stats\<close> object; the private attribute \<^verbatim>\<open>_x\<close> is the field
  \<open>x_f\<close>. An attribute that holds a decoded value uses \<open>JNull\<close> for \<open>None\<close>. The lock
  is \<open>None\<close> until \<^verbatim>\<open>get_stats\<close> creates it, then \<open>Some held\<close>. A Python set is kept as
  the list of its elements in the order they were added. A method returns either the
  exception it raises or its result together with the object as it has left it; what the
  object looks like after an exception is not modelled. Of the \<^verbatim>\<open>print\<close> calls only those
  of \<^verbatim>\<open>total_contributions\<close> are kept, as events.\<close>

record stats =
  username :: string
  ignore_forked_repos :: bool
  exclude_repos :: "string list"
  exclude_langs :: "string list"
  emails :: "string list option"
  name_f :: json
  stargazers_f :: "int option"
  forks_f :: "int option"
  forks_made_f :: "int option"
  total_contributions_f :: "int option"
  total_commits_f :: "int option"
  prs_f :: json
  issues_f :: json
  languages_f :: "(string \<times> lang_entry) list option"
  repos_f :: "json list option"
  lines_changed_f :: "(int \<times> int) option"
  views_f :: "int option"
  stats_lock :: "bool option"
  stats_fetched :: bool

text \<open>\<^verbatim>\<open>Stats.__init__\<close>.\<close>

definition init :: "string \<Rightarrow> string list option \<Rightarrow> string list option \<Rightarrow> bool \<Rightarrow>
    string list option \<Rightarrow> stats" where
  "init user excl_repos excl_langs ignore_forked email_list =
     \<lparr> username = user,
       ignore_forked_repos = ignore_forked,
       exclude_repos = (case excl_repos of None \<Rightarrow> [] | Some xs \<Rightarrow> xs),
       exclude_langs = (case excl_langs of None \<Rightarrow> [] | Some xs \<Rightarrow> xs),
       emails = email_list,
       name_f = JNull,
       stargazers_f = None,
       forks_f = None,
       forks_made_f = None,
       total_contributions_f = None,
       total_commits_f = None,
       prs_f = JNull,
       issues_f = JNull,
       languages_f = None,
       repos_f = None,
       lines_changed_f = None,
       views_f = None,
       stats_lock = None,
       stats_fetched = False \<rparr>"

subsection \<open>The core paginated fetch\<close>

fun foldE :: "('s \<Rightarrow> 'a \<Rightarrow> error + 's) \<Rightarrow> 'a list \<Rightarrow> 's \<Rightarrow> error + 's" where
  "foldE f [] s = Inr s"
| "foldE f (x # xs) s = bindE (f s x) (foldE f xs)"

text \<open>Membership in a set: the value is hashed first (a list or a dict cannot be), and
  \<open>True\<close> and \<open>1\<close> are the same element.\<close>

fun hashable :: "json \<Rightarrow> bool" where
  "hashable (JList xs) = False"
| "hashable (JObj kvs) = False"
| "hashable _ = True"

fun key_of :: "json \<Rightarrow> json" where
  "key_of (JBool b) = JInt (if b then 1 else 0)"
| "key_of v = v"

definition set_contains :: "json list \<Rightarrow> json \<Rightarrow> error + bool" where
  "set_contains xs v = (if hashable v then Inr (key_of v \<in> key_of ` set xs) else Inl TypeError)"

definition in_excluded :: "string list \<Rightarrow> json \<Rightarrow> bool" where
  "in_excluded excl v = (case v of JStr s \<Rightarrow> s \<in> set excl | _ \<Rightarrow> False)"

text \<open>The body of \<^verbatim>\<open>for lang in repo_langs\<close>.\<close>

definition process_lang :: "string list \<Rightarrow> stats \<Rightarrow> json \<Rightarrow> error + stats" where
  "process_lang exclude_langs_lower st lang =
     bindE (dict_get lang ''node'' (JObj [])) (\<lambda>node.
     bindE (dict_get node ''name'' (JStr ''Other'')) (\<lambda>lang_name.
     bindE (dict_get lang ''size'' (JInt 0)) (\<lambda>lang_size.
     bindE (py_lower lang_name) (\<lambda>lowered.
       if lowered \<in> set exclude_langs_lower then Inr st
       else
         (case (lang_name, languages_f st) of
            (JStr nm, Some languages) \<Rightarrow>
              (case map_of languages nm of
                 Some entry \<Rightarrow>
                   bindE (py_iadd (size_l entry) lang_size) (\<lambda>sz.
                     Inr (st\<lparr>languages_f := Some (AList.update nm
                            (entry\<lparr>size_l := sz, occurrences := occurrences entry + 1\<rparr>) languages)\<rparr>))
               | None \<Rightarrow>
                   bindE (dict_get node ''color'' JNull) (\<lambda>c.
                     Inr (st\<lparr>languages_f := Some (AList.update nm
                            \<lparr>size_l = lang_size, occurrences = 1, color = c, prop_l = None\<rparr> languages)\<rparr>)))
          | _ \<Rightarrow> Inl TypeError)))))"

text \<open>The list comprehension that collects the language names of a repository for the
  progress line; it reads every edge before the loop over the edges starts.\<close>

definition lang_names :: "json \<Rightarrow> error + json list" where
  "lang_names repo_langs =
     bindE (py_iter repo_langs) (mapE (\<lambda>entry.
       bindE (dict_get entry ''node'' (JObj [])) (\<lambda>node. dict_get node ''name'' (JStr ''?''))))"

text \<open>The body of \<^verbatim>\<open>for repo in repos\<close>, in two parts: what is done for a repository that
  is neither seen nor excluded (from \<^verbatim>\<open>self._repos.add(name)\<close> on), and the tests before
  it.\<close>

definition count_repo :: "string list \<Rightarrow> stats \<Rightarrow> json \<Rightarrow> json \<Rightarrow> json list \<Rightarrow> error + stats" where
  "count_repo exclude_langs_lower st repo name repos =
     bindE (dict_get repo ''stargazers'' (JObj [])) (\<lambda>sg.
     bindE (dict_get sg ''totalCount'' (JInt 0)) (\<lambda>star_count.
     bindE (case stargazers_f st of
              None \<Rightarrow> Inl TypeError
            | Some stargazers \<Rightarrow> int_iadd stargazers star_count) (\<lambda>stargazers'.
     bindE (dict_get repo ''forkCount'' (JInt 0)) (\<lambda>fork_count.
     bindE (case forks_f st of
              None \<Rightarrow> Inl TypeError
            | Some forks \<Rightarrow> int_iadd forks fork_count) (\<lambda>forks'.
     bindE (dict_get repo ''languages'' (JObj [])) (\<lambda>ls.
     bindE (dict_get ls ''edges'' (JList [])) (\<lambda>repo_langs.
     bindE (if truthy repo_langs then lang_names repo_langs else Inr []) (\<lambda>_.
     bindE (py_iter repo_langs) (\<lambda>edges.
       foldE (process_lang exclude_langs_lower) edges
         (st\<lparr>repos_f := Some (repos @ [name]),
             stargazers_f := Some stargazers',
             forks_f := Some forks'\<rparr>))))))))))"

definition process_repo :: "string list \<Rightarrow> stats \<Rightarrow> json \<Rightarrow> error + stats" where
  "process_repo exclude_langs_lower st repo =
     (if repo = JNull then Inr st
      else
        bindE (dict_get repo ''nameWithOwner'' JNull) (\<lambda>name.
        (case repos_f st of
           None \<Rightarrow> Inl TypeError
         | Some repos \<Rightarrow>
             bindE (set_contains repos name) (\<lambda>seen.
               if seen \<or> in_excluded (exclude_repos st) name then Inr st
               else count_repo exclude_langs_lower st repo name repos))))"

text \<open>\<^verbatim>\<open>raw_results.get("data", {}).get("viewer", {})\<close>, which the loop body spells out
  four times.\<close>

definition viewer_of :: "json \<Rightarrow> error + json" where
  "viewer_of raw_results = bindE (dict_get raw_results ''data'' (JObj [])) (\<lambda>d. dict_get d ''viewer'' (JObj []))"

text \<open>The test at the end of the loop body: the new cursors, or \<open>None\<close> for \<^verbatim>\<open>break\<close>.
  \<^verbatim>\<open>or\<close> does not evaluate its second operand when the first is true.\<close>

definition has_next_page :: "json \<Rightarrow> error + bool" where
  "has_next_page conn =
     bindE (dict_get conn ''pageInfo'' (JObj [])) (\<lambda>info.
     bindE (dict_get info ''hasNextPage'' (JBool False)) (\<lambda>h. Inr (truthy h)))"

definition end_cursor :: "json \<Rightarrow> json \<Rightarrow> error + json" where
  "end_cursor conn cur = bindE (dict_get conn ''pageInfo'' (JObj [])) (\<lambda>info. dict_get info ''endCursor'' cur)"

definition next_cursors :: "json \<Rightarrow> json \<Rightarrow> json \<Rightarrow> json \<Rightarrow> error + (json \<times> json) option" where
  "next_cursors owned_repos contrib_repos next_owned next_contrib =
     bindE (has_next_page owned_repos) (\<lambda>more_owned.
     bindE (if more_owned then Inr True else has_next_page contrib_repos) (\<lambda>more.
       if more then
         bindE (end_cursor owned_repos next_owned) (\<lambda>next_owned'.
         bindE (end_cursor contrib_repos next_contrib) (\<lambda>next_contrib'.
           Inr (Some (next_owned', next_contrib'))))
       else Inr None))"

text \<open>The loop body from the reply of the query on: the name, the nodes of the page, the
  cursors.\<close>

definition page_step :: "stats \<Rightarrow> json \<Rightarrow> json \<Rightarrow> json \<Rightarrow> error + stats \<times> (json \<times> json) option" where
  "page_step st raw next_owned next_contrib =
     (let raw_results = (if raw \<noteq> JNull then raw else JObj []) in
      bindE (viewer_of raw_results) (\<lambda>viewer.
      bindE (dict_get viewer ''name'' JNull) (\<lambda>nm.
      bindE (if nm = JNull then dict_get viewer ''login'' (JStr ''No Name'') else Inr nm) (\<lambda>nm'.
      bindE (dict_get viewer ''repositoriesContributedTo'' (JObj [])) (\<lambda>contrib_repos.
      bindE (dict_get viewer ''repositories'' (JObj [])) (\<lambda>owned_repos.
      bindE (dict_get owned_repos ''nodes'' (JList [])) (\<lambda>owned_nodes.
      bindE (if \<not> ignore_forked_repos st
             then bindE (dict_get contrib_repos ''nodes'' (JList [])) (py_iadd owned_nodes)
             else Inr owned_nodes) (\<lambda>repos.
      bindE (py_iter repos) (\<lambda>nodes.
      bindE (foldE (process_repo (map (map lower_char) (exclude_langs st))) nodes (st\<lparr>name_f := nm'\<rparr>)) (\<lambda>st'.
      bindE (next_cursors owned_repos contrib_repos next_owned next_contrib) (\<lambda>nxt.
        Inr (st', nxt))))))))))))"

text \<open>One turn of \<^verbatim>\<open>while True\<close>: build the query, send it, process the reply.\<close>

definition fetch_page :: "network \<Rightarrow> nat \<Rightarrow> stats \<Rightarrow> json \<Rightarrow> json \<Rightarrow>
    error + stats \<times> nat \<times> (json \<times> json) option" where
  "fetch_page net i st next_owned next_contrib =
     bindE (repos_overview next_contrib next_owned) (\<lambda>doc.
       (case query net i doc of
          (Inl e, i') \<Rightarrow> Inl e
        | (Inr raw, i') \<Rightarrow>
            bindE (page_step st raw next_owned next_contrib) (\<lambda>(st', nxt). Inr (st', i', nxt))))"

text \<open>The loop may go on for ever: \<open>None\<close> is the run that never leaves it.\<close>

partial_function (option) pages_loop :: "network \<Rightarrow> nat \<Rightarrow> stats \<Rightarrow> json \<Rightarrow> json \<Rightarrow>
    (error + stats \<times> nat) option" where
  "pages_loop net i st next_owned next_contrib =
     (case fetch_page net i st next_owned next_contrib of
        Inl e \<Rightarrow> Some (Inl e)
      | Inr (st', i', nxt) \<Rightarrow>
          (case nxt of
             None \<Rightarrow> Some (Inr (st', i'))
           | Some (next_owned', next_contrib') \<Rightarrow> pages_loop net i' st' next_owned' next_contrib'))"

declare pages_loop.simps [code]

text \<open>After the loop: \<^verbatim>\<open>langs_total\<close> is \<^verbatim>\<open>sum\<close> over the sizes, starting from the int 0,
  and each entry gets its \<^verbatim>\<open>prop\<close>.\<close>

definition langs_total :: "(string \<times> lang_entry) list \<Rightarrow> error + int" where
  "langs_total languages = foldE int_iadd (map (\<lambda>kv. size_l (snd kv)) languages) 0"

definition set_prop :: "int \<Rightarrow> string \<times> lang_entry \<Rightarrow> error + string \<times> lang_entry" where
  "set_prop tot kv =
     (if tot > 0 then
        (case num_of (size_l (snd kv)) of
           Some n \<Rightarrow> Inr (fst kv, (snd kv)\<lparr>prop_l := Some (100 * (real_of_int n / real_of_int tot))\<rparr>)
         | None \<Rightarrow> Inl TypeError)
      else Inr (fst kv, (snd kv)\<lparr>prop_l := Some 0\<rparr>))"

definition proportions :: "(string \<times> lang_entry) list \<Rightarrow> error + (string \<times> lang_entry) list" where
  "proportions languages = bindE (langs_total languages) (\<lambda>tot. mapE (set_prop tot) languages)"

text \<open>\<^verbatim>\<open>get_stats\<close> in three parts, cut where the coroutine can be suspended: up to
  the first query, one turn of the loop, and from the end of the loop on. Entering creates
  the lock if there is none; a caller that finds it held waits.\<close>

datatype entered = Waits | Fetched stats | Starts stats

definition get_stats_enter :: "stats \<Rightarrow> entered" where
  "get_stats_enter st =
     (let st1 = (if stats_lock st = None then st\<lparr>stats_lock := Some False\<rparr> else st) in
      if stats_lock st1 = Some True then Waits
      else if stats_fetched st1 then Fetched st1
      else Starts (st1\<lparr>stats_lock := Some True,
                       stargazers_f := Some 0,
                       forks_f := Some 0,
                       languages_f := Some [],
                       repos_f := Some []\<rparr>))"

definition get_stats_exit :: "stats \<Rightarrow> error + stats" where
  "get_stats_exit st =
     (case languages_f st of
        None \<Rightarrow> Inl AttributeError
      | Some languages \<Rightarrow>
          bindE (proportions languages) (\<lambda>languages'.
            Inr (st\<lparr>languages_f := Some languages', stats_fetched := True, stats_lock := Some False\<rparr>)))"

definition get_stats :: "network \<Rightarrow> nat \<Rightarrow> stats \<Rightarrow> (error + stats \<times> nat) option" where
  "get_stats net i st =
     (case get_stats_enter st of
        Waits \<Rightarrow> None
      | Fetched st' \<Rightarrow> Some (Inr (st', i))
      | Starts st' \<Rightarrow>
          (case pages_loop net i st' JNull JNull of
             None \<Rightarrow> None
           | Some (Inl e) \<Rightarrow> Some (Inl e)
           | Some (Inr (st'', i')) \<Rightarrow> Some (bindE (get_stats_exit st'') (\<lambda>s. Inr (s, i')))))"

text \<open>The condition of claim C6 on a reply: both connections report that there is no further
  page.\<close>

definition final_page :: "json \<Rightarrow> bool" where
  "final_page raw =
     (case viewer_of raw of
        Inr viewer \<Rightarrow>
          (case (dict_get viewer ''repositories'' (JObj []),
                 dict_get viewer ''repositoriesContributedTo'' (JObj [])) of
             (Inr owned_repos, Inr contrib_repos) \<Rightarrow>
               has_next_page owned_repos = Inr False \<and> has_next_page contrib_repos = Inr False
           | _ \<Rightarrow> False)
      | Inl e \<Rightarrow> False)"

text \<open>For claim C9, in the words of the specification: two names match without regard to
  case when they are equal once the letters A to Z are replaced by a to z. The invariant of
  the page loop is that no key of the language map matches an excluded name.\<close>

definition fold_case :: "char \<Rightarrow> char" where
  "fold_case c =
     (case map_of (zip ''ABCDEFGHIJKLMNOPQRSTUVWXYZ'' ''abcdefghijklmnopqrstuvwxyz'') c of
        Some l \<Rightarrow> l
      | None \<Rightarrow> c)"

definition same_ignoring_case :: "string \<Rightarrow> string \<Rightarrow> bool" where
  "same_ignoring_case a b \<longleftrightarrow> map fold_case a = map fold_case b"

definition langs_inv :: "string list \<Rightarrow> stats \<Rightarrow> bool" where
  "langs_inv excl st \<longleftrightarrow> exclude_langs st = excl
     \<and> (\<exists>langs. languages_f st = Some langs
           \<and> (\<forall>kv \<in> set langs. \<forall>x \<in> set excl. \<not> same_ignoring_case (fst kv) x))"

text \<open>The invariant of the page loop behind claim C4: the set of repositories has no two
  elements that are equal as set elements, and none that is excluded.\<close>

definition same_repos :: "stats \<Rightarrow> stats \<Rightarrow> bool" where
  "same_repos st st' \<longleftrightarrow> repos_f st' = repos_f st \<and> exclude_repos st' = exclude_repos st
      \<and> stargazers_f st' = stargazers_f st \<and> forks_f st' = forks_f st"

definition repos_inv :: "string list \<Rightarrow> stats \<Rightarrow> bool" where
  "repos_inv excl st \<longleftrightarrow> exclude_repos st = excl
     \<and> (\<exists>rs. repos_f st = Some rs \<and> distinct (map key_of rs) \<and> (\<forall>nm \<in> set rs. \<not> in_excluded excl nm))"

subsection \<open>Accessors of the core fetch\<close>

text \<open>Each accessor returns its attribute when it is set, and otherwise awaits
  \<^verbatim>\<open>get_stats\<close> and asserts that the attribute is set. The result carries the object
  and the number of exchanges made so far.\<close>

definition after_get_stats :: "network \<Rightarrow> nat \<Rightarrow> stats \<Rightarrow> (stats \<Rightarrow> 'a option) \<Rightarrow>
    (error + 'a \<times> stats \<times> nat) option" where
  "after_get_stats net i st field =
     (case get_stats net i st of
        None \<Rightarrow> None
      | Some (Inl e) \<Rightarrow> Some (Inl e)
      | Some (Inr (st', i')) \<Rightarrow>
          (case field st' of
             None \<Rightarrow> Some (Inl AssertionError)
           | Some v \<Rightarrow> Some (Inr (v, st', i'))))"

definition name :: "network \<Rightarrow> nat \<Rightarrow> stats \<Rightarrow> (error + json \<times> stats \<times> nat) option" where
  "name net i st =
     (if name_f st \<noteq> JNull then Some (Inr (name_f st, st, i))
      else after_get_stats net i st (\<lambda>s. if name_f s \<noteq> JNull then Some (name_f s) else None))"

definition stargazers :: "network \<Rightarrow> nat \<Rightarrow> stats \<Rightarrow> (error + int \<times> stats \<times> nat) option" where
  "stargazers net i st =
     (case stargazers_f st of
        Some v \<Rightarrow> Some (Inr (v, st, i))
      | None \<Rightarrow> after_get_stats net i st stargazers_f)"

definition languages :: "network \<Rightarrow> nat \<Rightarrow> stats \<Rightarrow>
    (error + (string \<times> lang_entry) list \<times> stats \<times> nat) option" where
  "languages net i st =
     (case languages_f st of
        Some v \<Rightarrow> Some (Inr (v, st, i))
      | None \<Rightarrow> after_get_stats net i st languages_f)"

text \<open>\<^verbatim>\<open>v.get("prop", 0)\<close>.\<close>

definition prop_of :: "lang_entry \<Rightarrow> real" where
  "prop_of v = (case prop_l v of Some p \<Rightarrow> p | None \<Rightarrow> 0)"

definition languages_proportional :: "network \<Rightarrow> nat \<Rightarrow> stats \<Rightarrow>
    (error + (string \<times> real) list \<times> stats \<times> nat) option" where
  "languages_proportional net i st =
     map_option (map_sum id (\<lambda>(ls, st', i'). (map (\<lambda>kv. (fst kv, prop_of (snd kv))) ls, st', i')))
       (languages net i st)"

definition repos :: "network \<Rightarrow> nat \<Rightarrow> stats \<Rightarrow> (error + json list \<times> stats \<times> nat) option" where
  "repos net i st =
     (case repos_f st of
        Some v \<Rightarrow> Some (Inr (v, st, i))
      | None \<Rightarrow> after_get_stats net i st repos_f)"

subsection \<open>Total contributions\<close>

text \<open>What \<^verbatim>\<open>total_contributions\<close> prints, one event for each \<^verbatim>\<open>print\<close>.\<close>

datatype event =
    Fetching_total_contributions
  | Found_contribution_years json
  | Warning_no_contribution_years
  | Total_contributions_all_years int

text \<open>\<^verbatim>\<open>d.values()\<close>.\<close>

fun dict_values :: "json \<Rightarrow> error + json list" where
  "dict_values (JObj kvs) = Inr (map snd (AList.clearjunk kvs))"
| "dict_values _ = Inl AttributeError"

definition add_year :: "int \<Rightarrow> json \<Rightarrow> error + int" where
  "add_year acc year =
     bindE (dict_get year ''contributionCalendar'' (JObj [])) (\<lambda>cal.
     bindE (dict_get cal ''totalContributions'' (JInt 0)) (\<lambda>contrib.
       int_iadd acc contrib))"

text \<open>The two chained reads of \<^verbatim>\<open>total_contributions\<close>: the years out of the first reply,
  the per-year entries out of the second.\<close>

definition contribution_years :: "json \<Rightarrow> error + json" where
  "contribution_years r =
     bindE (viewer_of r) (\<lambda>viewer.
     bindE (dict_get viewer ''contributionsCollection'' (JObj [])) (\<lambda>coll.
       dict_get coll ''contributionYears'' (JList [])))"

definition by_year_values :: "json \<Rightarrow> error + json list" where
  "by_year_values r = bindE (viewer_of r) dict_values"

definition total_contributions :: "network \<Rightarrow> nat \<Rightarrow> stats \<Rightarrow>
    error + (int \<times> stats \<times> nat) \<times> event list" where
  "total_contributions net i st =
     (case total_contributions_f st of
        Some v \<Rightarrow> Inr ((v, st, i), [])
      | None \<Rightarrow>
          (case query net i contrib_years of
             (Inl e, i1) \<Rightarrow> Inl e
           | (Inr r, i1) \<Rightarrow>
               bindE (contribution_years r) (\<lambda>years.
                 if \<not> truthy years then
                   Inr ((0, st\<lparr>total_contributions_f := Some 0\<rparr>, i1),
                        [Fetching_total_contributions, Found_contribution_years years,
                         Warning_no_contribution_years])
                 else
                   bindE (all_contribs years) (\<lambda>doc.
                     (case query net i1 doc of
                        (Inl e, i2) \<Rightarrow> Inl e
                      | (Inr r2, i2) \<Rightarrow>
                          bindE (by_year_values r2) (\<lambda>by_year.
                          bindE (foldE add_year by_year 0) (\<lambda>tot.
                            Inr ((tot, st\<lparr>total_contributions_f := Some tot\<rparr>, i2),
                                 [Fetching_total_contributions, Found_contribution_years years,
                                  Total_contributions_all_years tot]))))))))"

text \<open>For claim C8, in the words of the specification. The reply to the batched query has,
  under \<^verbatim>\<open>data\<close> and \<^verbatim>\<open>viewer\<close>, one entry for each year, and an entry carries the year's
  total as the number \<^verbatim>\<open>totalContributions\<close> of its \<^verbatim>\<open>contributionCalendar\<close>;
  \<open>reported_totals\<close> lists these numbers. The batched query has one aliased sub-field for
  each year, named \<^verbatim>\<open>year\<close> followed by the year; \<open>year_alias\<close> is how such a
  sub-field starts.\<close>

fun obj_member :: "string \<Rightarrow> json \<Rightarrow> json option" where
  "obj_member k (JObj kvs) = map_of kvs k"
| "obj_member k _ = None"

definition reported_total :: "json \<Rightarrow> int option" where
  "reported_total entry =
     (case obj_member ''contributionCalendar'' entry of
        Some calendar \<Rightarrow>
          (case obj_member ''totalContributions'' calendar of
             Some (JInt n) \<Rightarrow> Some n
           | _ \<Rightarrow> None)
      | None \<Rightarrow> None)"

definition reported_totals :: "json \<Rightarrow> int list option" where
  "reported_totals reply =
     (case obj_member ''data'' reply of
        Some d \<Rightarrow>
          (case obj_member ''viewer'' d of
             Some (JObj kvs) \<Rightarrow> those (map (\<lambda>kv. reported_total (snd kv)) (AList.clearjunk kvs))
           | _ \<Rightarrow> None)
      | None \<Rightarrow> None)"

definition year_alias :: "string \<Rightarrow> string" where
  "year_alias y = ''year'' @ y @ '': contributionsCollection(''"

subsection \<open>Lines changed and views\<close>

text \<open>The REST path of a repository. The elements of the set of repositories are hashable,
  so \<^verbatim>\<open>py_str\<close> formats each of them.\<close>

definition repo_path :: "json \<Rightarrow> string \<Rightarrow> string" where
  "repo_path repo suffix = ''/repos/'' @ (case py_str repo of Some s \<Rightarrow> s | None \<Rightarrow> []) @ suffix"

text \<open>The loops inside the \<^verbatim>\<open>try\<close> of \<^verbatim>\<open>lines_changed\<close>. An exception ends the work on
  the repository and keeps what was added up to then, so the loops return the sums together
  with the exception, if any.\<close>

fun weeks_loop :: "json list \<Rightarrow> int \<times> int \<Rightarrow> (int \<times> int) \<times> error option" where
  "weeks_loop [] acc = (acc, None)"
| "weeks_loop (week # weeks) (additions, deletions) =
     (case week of
        JObj kvs \<Rightarrow>
          (case int_iadd additions (case map_of kvs ''a'' of Some v \<Rightarrow> v | None \<Rightarrow> JInt 0) of
             Inl e \<Rightarrow> ((additions, deletions), Some e)
           | Inr additions' \<Rightarrow>
               (case int_iadd deletions (case map_of kvs ''d'' of Some v \<Rightarrow> v | None \<Rightarrow> JInt 0) of
                  Inl e \<Rightarrow> ((additions', deletions), Some e)
                | Inr deletions' \<Rightarrow> weeks_loop weeks (additions', deletions')))
      | _ \<Rightarrow> weeks_loop weeks (additions, deletions))"

fun is_dict :: "json \<Rightarrow> bool" where
  "is_dict (JObj kvs) = True"
| "is_dict _ = False"

fun authors_loop :: "string \<Rightarrow> json list \<Rightarrow> int \<times> int \<Rightarrow> (int \<times> int) \<times> error option" where
  "authors_loop user [] acc = (acc, None)"
| "authors_loop user (author_obj # rest) acc =
     (case author_obj of
        JObj kvs \<Rightarrow>
          (let author_dict = (case map_of kvs ''author'' of Some v \<Rightarrow> v | None \<Rightarrow> JObj []) in
           if \<not> is_dict author_dict then authors_loop user rest acc
           else
             (case bindE (dict_get author_dict ''login'' (JStr [])) py_lower of
                Inl e \<Rightarrow> (acc, Some e)
              | Inr author \<Rightarrow>
                  if author \<noteq> map lower_char user then authors_loop user rest acc
                  else
                    (case (case map_of kvs ''weeks'' of Some v \<Rightarrow> v | None \<Rightarrow> JList []) of
                       JList weeks \<Rightarrow>
                         (case weeks_loop weeks acc of
                            (acc', None) \<Rightarrow> authors_loop user rest acc'
                          | (acc', Some e) \<Rightarrow> (acc', Some e))
                     | _ \<Rightarrow> authors_loop user rest acc)))
      | _ \<Rightarrow> authors_loop user rest acc)"

text \<open>What one repository adds, given the reply \<open>r\<close> of the REST call: nothing unless the
  reply is a non-empty list.\<close>

definition repo_lines :: "string \<Rightarrow> json \<Rightarrow> int \<times> int \<Rightarrow> int \<times> int" where
  "repo_lines user r acc =
     (case r of
        JList authors \<Rightarrow> if authors = [] then acc else fst (authors_loop user authors acc)
      | _ \<Rightarrow> acc)"

fun lines_loop :: "network \<Rightarrow> string \<Rightarrow> json list \<Rightarrow> nat \<Rightarrow> int \<times> int \<Rightarrow> (int \<times> int) \<times> nat" where
  "lines_loop net user [] i acc = (acc, i)"
| "lines_loop net user (repo # rest) i acc =
     (case query_rest net i (repo_path repo ''/stats/contributors'') of
        (r, i') \<Rightarrow> lines_loop net user rest i' (repo_lines user r acc))"

definition lines_changed :: "network \<Rightarrow> nat \<Rightarrow> stats \<Rightarrow>
    (error + (int \<times> int) \<times> stats \<times> nat) option" where
  "lines_changed net i st =
     (case lines_changed_f st of
        Some v \<Rightarrow> Some (Inr (v, st, i))
      | None \<Rightarrow>
          (case repos net i st of
             None \<Rightarrow> None
           | Some (Inl e) \<Rightarrow> Some (Inl e)
           | Some (Inr (rs, st', i')) \<Rightarrow>
               (case lines_loop net (username st') rs i' (0, 0) of
                  (acc, i'') \<Rightarrow> Some (Inr (acc, st'\<lparr>lines_changed_f := Some acc\<rparr>, i'')))))"

fun views_data_loop :: "json list \<Rightarrow> int \<Rightarrow> int \<times> error option" where
  "views_data_loop [] tot = (tot, None)"
| "views_data_loop (view # rest) tot =
     (case view of
        JObj kvs \<Rightarrow>
          (case int_iadd tot (case map_of kvs ''count'' of Some v \<Rightarrow> v | None \<Rightarrow> JInt 0) of
             Inl e \<Rightarrow> (tot, Some e)
           | Inr tot' \<Rightarrow> views_data_loop rest tot')
      | _ \<Rightarrow> views_data_loop rest tot)"

definition repo_views :: "json \<Rightarrow> int \<Rightarrow> int" where
  "repo_views r tot =
     (case r of
        JObj kvs \<Rightarrow>
          if kvs = [] then tot
          else (case (case map_of kvs ''views'' of Some v \<Rightarrow> v | None \<Rightarrow> JList []) of
                  JList views_data \<Rightarrow> fst (views_data_loop views_data tot)
                | _ \<Rightarrow> tot)
      | _ \<Rightarrow> tot)"

fun views_loop :: "network \<Rightarrow> json list \<Rightarrow> nat \<Rightarrow> int \<Rightarrow> int \<times> nat" where
  "views_loop net [] i tot = (tot, i)"
| "views_loop net (repo # rest) i tot =
     (case query_rest net i (repo_path repo ''/traffic/views'') of
        (r, i') \<Rightarrow> views_loop net rest i' (repo_views r tot))"

definition views :: "network \<Rightarrow> nat \<Rightarrow> stats \<Rightarrow> (error + int \<times> stats \<times> nat) option" where
  "views net i st =
     (case views_f st of
        Some v \<Rightarrow> Some (Inr (v, st, i))
      | None \<Rightarrow>
          (case repos net i st of
             None \<Rightarrow> None
           | Some (Inl e) \<Rightarrow> Some (Inl e)
           | Some (Inr (rs, st', i')) \<Rightarrow>
               (case views_loop net rs i' 0 of
                  (tot, i'') \<Rightarrow> Some (Inr (tot, st'\<lparr>views_f := Some tot\<rparr>, i'')))))"

subsection \<open>Total commits\<close>

text \<open>\<^verbatim>\<open>"k" in v\<close> and \<^verbatim>\<open>v["k"]\<close> for a str \<open>k\<close>.\<close>

fun contains_sub :: "string \<Rightarrow> string \<Rightarrow> bool" where
  "contains_sub sub [] = (sub = [])"
| "contains_sub sub (c # cs) = (take (length sub) (c # cs) = sub \<or> contains_sub sub cs)"

fun py_in :: "string \<Rightarrow> json \<Rightarrow> error + bool" where
  "py_in k (JObj kvs) = Inr (map_of kvs k \<noteq> None)"
| "py_in k (JList xs) = Inr (JStr k \<in> set xs)"
| "py_in k (JStr s) = Inr (contains_sub k s)"
| "py_in k _ = Inl TypeError"

fun py_index :: "json \<Rightarrow> string \<Rightarrow> error + json" where
  "py_index (JObj kvs) k = (case map_of kvs k of Some v \<Rightarrow> Inr v | None \<Rightarrow> Inl KeyError)"
| "py_index _ k = Inl TypeError"

text \<open>The two documents of \<^verbatim>\<open>total_commits\<close>. The one built inside \<^verbatim>\<open>for email in
  self._emails\<close> has the loop variable in scope.\<close>

definition commits_query_email :: "string \<Rightarrow> string \<Rightarrow> string" where
  "commits_query_email user email = commits_query_email_head @ user @ commits_query_email_tail"

definition commits_query_user :: "string \<Rightarrow> string" where
  "commits_query_user user = commits_query_user_head @ user @ commits_query_user_tail"

text \<open>The test on the response and the count it carries: \<open>None\<close> is the \<^verbatim>\<open>else\<close> branch
  that only prints.\<close>

definition response_commits :: "json \<Rightarrow> error + json option" where
  "response_commits response =
     bindE (py_in ''data'' response) (\<lambda>has_data.
       if \<not> has_data then Inr None
       else
         bindE (py_index response ''data'') (\<lambda>d.
         bindE (py_in ''user'' d) (\<lambda>has_user.
           if \<not> has_user then Inr None
           else
             bindE (py_index d ''user'') (\<lambda>u.
             bindE (py_index u ''contributionsCollection'') (\<lambda>c.
             bindE (py_index c ''totalCommitContributions'') (\<lambda>n. Inr (Some n)))))))"

definition commits_for_email :: "network \<Rightarrow> string \<Rightarrow> int \<times> nat \<Rightarrow> string \<Rightarrow> error + int \<times> nat" where
  "commits_for_email net user acc email =
     (case query net (snd acc) (commits_query_email user email) of
        (Inl e, i') \<Rightarrow> Inl e
      | (Inr response, i') \<Rightarrow>
          bindE (response_commits response) (\<lambda>c.
            (case c of
               Some total_commit \<Rightarrow> bindE (int_iadd (fst acc) total_commit) (\<lambda>t. Inr (t, i'))
             | None \<Rightarrow> Inr (fst acc, i'))))"

definition total_commits :: "network \<Rightarrow> nat \<Rightarrow> stats \<Rightarrow> error + json \<times> stats \<times> nat" where
  "total_commits net i st =
     (case emails st of
        Some (e # es) \<Rightarrow>
          bindE (foldE (commits_for_email net (username st)) (e # es) (0, i)) (\<lambda>acc.
            Inr (JInt (fst acc), st, snd acc))
      | _ \<Rightarrow>
          (case query net i (commits_query_user (username st)) of
             (Inl e, i') \<Rightarrow> Inl e
           | (Inr response, i') \<Rightarrow>
               bindE (response_commits response) (\<lambda>c.
                 Inr ((case c of Some total_commit \<Rightarrow> total_commit | None \<Rightarrow> JInt 0), st, i'))))"

section \<open>Example replies\<close>

text \<open>Replies of the shape the API gives, for the concrete runs below.\<close>

definition lang_edge :: "string \<Rightarrow> int \<Rightarrow> json" where
  "lang_edge nm sz = JObj [(''size'', JInt sz), (''node'', JObj [(''name'', JStr nm), (''color'', JNull)])]"

definition repo_node :: "string \<Rightarrow> int \<Rightarrow> int \<Rightarrow> json list \<Rightarrow> json" where
  "repo_node nm stars forks edges =
     JObj [(''nameWithOwner'', JStr nm), (''stargazers'', JObj [(''totalCount'', JInt stars)]),
           (''forkCount'', JInt forks), (''languages'', JObj [(''edges'', JList edges)])]"

definition connection :: "bool \<Rightarrow> json \<Rightarrow> json list \<Rightarrow> json" where
  "connection has_more cursor nodes =
     JObj [(''pageInfo'', JObj [(''hasNextPage'', JBool has_more), (''endCursor'', cursor)]),
           (''nodes'', JList nodes)]"

definition overview_reply :: "json \<Rightarrow> json \<Rightarrow> json" where
  "overview_reply owned contrib =
     JObj [(''data'', JObj [(''viewer'', JObj [(''login'', JStr ''octo''), (''name'', JStr ''Octo''),
        (''repositories'', owned), (''repositoriesContributedTo'', contrib)])])]"

definition one_repo_page :: "json list \<Rightarrow> json" where
  "one_repo_page edges =
     overview_reply (connection False JNull [repo_node ''octo/site'' 2 1 edges]) (connection False JNull [])"

definition commits_reply :: "int \<Rightarrow> json" where
  "commits_reply n = JObj [(''data'', JObj [(''user'', JObj [(''contributionsCollection'',
      JObj [(''totalCommitContributions'', JInt n)])])])]"

text \<open>A network whose asynchronous client always succeeds with the same body, and one whose
  first exchange reports 5 commits and every later one 7.\<close>

definition always :: "json \<Rightarrow> network" where
  "always j = (\<lambda>i r. (Resp 200 (Some j), ConnError))"

definition changing :: network where
  "changing = (\<lambda>i r. (Resp 200 (Some (commits_reply (if i = 0 then 5 else 7))), ConnError))"

definition example_langs :: "(string \<times> lang_entry) list" where
  "example_langs =
     [(''Python'', \<lparr>size_l = JInt 300, occurrences = 2, color = JStr ''#3572A5'', prop_l = None\<rparr>),
      (''C'', \<lparr>size_l = JInt 100, occurrences = 1, color = JNull, prop_l = None\<rparr>)]"

definition example_langs_done :: "(string \<times> lang_entry) list" where
  "example_langs_done =
     [(''Python'', \<lparr>size_l = JInt 300, occurrences = 2, color = JStr ''#3572A5'', prop_l = Some 75\<rparr>),
      (''C'', \<lparr>size_l = JInt 100, occurrences = 1, color = JNull, prop_l = Some 25\<rparr>)]"

text \<open>Replies of the two REST endpoints, and a network on which the repository
  \<^verbatim>\<open>octo/gone\<close> is not found.\<close>

definition contributors_reply :: json where
  "contributors_reply =
     JList [JObj [(''author'', JObj [(''login'', JStr ''Octo'')]),
                  (''weeks'', JList [JObj [(''a'', JInt 10), (''d'', JInt 3)],
                                     JObj [(''a'', JInt 1), (''d'', JInt 1)]])],
            JObj [(''author'', JObj [(''login'', JStr ''other'')]),
                  (''weeks'', JList [JObj [(''a'', JInt 100), (''d'', JInt 30)]])]]"

definition views_reply :: json where
  "views_reply =
     JObj [(''count'', JInt 9), (''uniques'', JInt 2),
           (''views'', JList [JObj [(''count'', JInt 4)], JObj [(''count'', JInt 5)]])]"

definition gone_net :: network where
  "gone_net = (\<lambda>i r.
     (if r = Get ''repos/octo/gone/stats/contributors'' \<or> r = Get ''repos/octo/gone/traffic/views''
        then Resp 404 None
      else if r = Get ''repos/octo/site/stats/contributors'' then Resp 200 (Some contributors_reply)
      else Resp 200 (Some views_reply),
      ConnError))"

text \<open>The same, but the repository \<^verbatim>\<open>octo/gone\<close> is first reported as being processed, then
  as rate limited, and from the third exchange on the asynchronous client fails and the
  synchronous one gets the 404.\<close>

definition slow_gone_net :: network where
  "slow_gone_net = (\<lambda>i r.
     if r = Get ''repos/octo/gone/stats/contributors'' \<or> r = Get ''repos/octo/gone/traffic/views''
       then (if i = 0 then (Resp 202 None, ConnError)
             else if i = 1 then (Resp 403 None, ConnError)
             else (ConnError, Resp 404 None))
     else if r = Get ''repos/octo/site/stats/contributors''
       then (Resp 200 (Some contributors_reply), ConnError)
     else (Resp 200 (Some views_reply), ConnError))"

text \<open>A network with two pages of repositories: the first announces a further page of owned
  repositories, the second does not. The repository \<^verbatim>\<open>octo/site\<close> is on both pages.\<close>

definition first_page :: json where
  "first_page =
     overview_reply
       (connection True (JStr ''Y3Vyc29yOjE='')
          [repo_node ''octo/site'' 2 1 [lang_edge ''Python'' 300], repo_node ''octo/old'' 5 0 []])
       (connection False JNull [repo_node ''octo/site'' 2 1 [lang_edge ''Python'' 300]])"

definition two_pages :: network where
  "two_pages = (\<lambda>i r.
     (Resp 200 (Some (if i = 0 then first_page else one_repo_page [lang_edge ''Python'' 300])),
      ConnError))"

text \<open>The object after \<^verbatim>\<open>get_stats\<close> on \<open>two_pages\<close> with \<^verbatim>\<open>octo/old\<close> excluded.\<close>

definition two_pages_result :: stats where
  "two_pages_result =
     (init ''octo'' (Some [''octo/old'']) None False None)
       \<lparr> name_f := JStr ''Octo'',
         stargazers_f := Some 2,
         forks_f := Some 1,
         languages_f := Some [(''Python'',
            \<lparr>size_l = JInt 300, occurrences = 1, color = JNull, prop_l = Some 100\<rparr>)],
         repos_f := Some [JStr ''octo/site''],
         stats_lock := Some False,
         stats_fetched := True \<rparr>"

text \<open>The replies of the example of claim C8: the years 2020 and 2021, with 5 and 7
  contributions.\<close>

definition years_reply :: json where
  "years_reply =
     JObj [(''data'', JObj [(''viewer'', JObj [(''contributionsCollection'',
        JObj [(''contributionYears'', JList [JStr ''2020'', JStr ''2021''])])])])]"

definition year_totals_reply :: json where
  "year_totals_reply =
     JObj [(''data'', JObj [(''viewer'', JObj [
        (''year2020'', JObj [(''contributionCalendar'', JObj [(''totalContributions'', JInt 5)])]),
        (''year2021'', JObj [(''contributionCalendar'', JObj [(''totalContributions'', JInt 7)])])])])]"

definition years_net :: network where
  "years_net = (\<lambda>i r. (Resp 200 (Some (if i = 0 then years_reply else year_totals_reply)), ConnError))"

section \<open>Results\<close>

subsection \<open>Auxiliary facts\<close>

lemma bindE_Inr [simp]: "bindE (Inr v) f = f v"
  by (simp add: bindE_def)

lemma bindE_Inl [simp]: "bindE (Inl e) f = Inl e"
  by (simp add: bindE_def)

lemma bindE_eq_Inr: "bindE m f = Inr y \<longleftrightarrow> (\<exists>v. m = Inr v \<and> f v = Inr y)"
  by (cases m) simp_all

lemma mapE_Inr: "mapE f xs = Inr ys \<Longrightarrow> list_all2 (\<lambda>x y. f x = Inr y) xs ys"
  by (induction xs arbitrary: ys) (auto simp: bindE_eq_Inr)

lemma list_all2_right: "list_all2 P xs ys \<Longrightarrow> y \<in> set ys \<Longrightarrow> \<exists>x. P x y"
  by (induction rule: list_all2_induct) auto

lemma int_iadd_Inr: "int_iadd a v = Inr t \<longleftrightarrow> (\<exists>n. num_of v = Some n \<and> t = a + n)"
  by (auto simp: int_iadd_def split: option.splits)

lemma foldE_int_iadd:
  "foldE int_iadd vs a = Inr t \<Longrightarrow> \<exists>ns. map num_of vs = map Some ns \<and> t = a + sum_list ns"
proof (induction vs arbitrary: a)
  case Nil
  then show ?case by simp
next
  case (Cons v vs)
  from Cons.prems obtain n where n: "num_of v = Some n" and rest: "foldE int_iadd vs (a + n) = Inr t"
    by (auto simp: bindE_eq_Inr int_iadd_Inr)
  from Cons.IH [OF rest] obtain ns where "map num_of vs = map Some ns" "t = a + n + sum_list ns"
    by blast
  with n have "map num_of (v # vs) = map Some (n # ns) \<and> t = a + sum_list (n # ns)"
    by simp
  then show ?case by blast
qed

lemma set_prop_pos:
  "0 < tot \<Longrightarrow> set_prop tot kv = Inr kv' \<Longrightarrow>
     fst kv' = fst kv \<and> size_l (snd kv') = size_l (snd kv) \<and>
     (\<exists>n. num_of (size_l (snd kv)) = Some n \<and> prop_l (snd kv') = Some (100 * real_of_int n / real_of_int tot))"
  by (auto simp: set_prop_def split: option.splits)

lemma set_prop_nonpos:
  "\<not> 0 < tot \<Longrightarrow> set_prop tot kv = Inr kv' \<Longrightarrow>
     fst kv' = fst kv \<and> size_l (snd kv') = size_l (snd kv) \<and> prop_l (snd kv') = Some 0"
  by (auto simp: set_prop_def)

lemma set_prop_keeps:
  "set_prop tot kv = Inr kv' \<Longrightarrow> fst kv' = fst kv \<and> size_l (snd kv') = size_l (snd kv)"
  by (cases "0 < tot") (auto dest: set_prop_pos set_prop_nonpos)

lemma props_sum_aux:
  "list_all2 (\<lambda>kv kv'. set_prop tot kv = Inr kv') ls ls' \<Longrightarrow> 0 < tot \<Longrightarrow>
   map num_of (map (\<lambda>kv. size_l (snd kv)) ls) = map Some ns \<Longrightarrow>
   (\<Sum>kv\<leftarrow>ls'. prop_of (snd kv)) = 100 * real_of_int (sum_list ns) / real_of_int tot"
proof (induction ls ls' arbitrary: ns rule: list_all2_induct)
  case Nil
  then show ?case by simp
next
  case (Cons kv ls kv' ls')
  from Cons.prems(2) obtain n ms where ns: "ns = n # ms" and n: "num_of (size_l (snd kv)) = Some n"
    and ms: "map num_of (map (\<lambda>kv. size_l (snd kv)) ls) = map Some ms"
    by (cases ns) auto
  from set_prop_pos [OF Cons.prems(1) Cons.hyps(1)] n
  have "prop_of (snd kv') = 100 * real_of_int n / real_of_int tot"
    by (auto simp: prop_of_def)
  moreover have "(\<Sum>kv\<leftarrow>ls'. prop_of (snd kv)) = 100 * real_of_int (sum_list ms) / real_of_int tot"
    using Cons.IH [OF Cons.prems(1) ms] .
  ultimately show ?case
    by (simp add: ns add_divide_distrib distrib_left)
qed


subsection \<open>The transport\<close>

lemma query_primary_ok:
  "net i (Post d) = (Resp st (Some j), fb) \<Longrightarrow> j \<noteq> JNull \<Longrightarrow> query net i d = (Inr j, Suc i)"
  by (simp add: query_def)

lemma query_fallback_ok:
  "net i (Post d) = (ConnError, Resp st (Some j)) \<Longrightarrow> j \<noteq> JNull \<Longrightarrow> query net i d = (Inr j, Suc i)"
  by (simp add: query_def)

text \<open>
  Claim C5. \<^verbatim>\<open>query\<close> is to return the decoded JSON, to retry once through the synchronous
  client on a transport failure, and then to give up with an empty object, never raising.
  When both clients fail, the exception of the synchronous client leaves \<^verbatim>\<open>query\<close>.
\<close>

theorem query_both_fail_raises:
  "query (\<lambda>i r. (ConnError, ConnError)) 0 ''query { viewer { login } }'' = (Inl RequestError, 1)"
  by (simp add: query_def)

subsection \<open>Language proportions\<close>

text \<open>
  Claim C2. When the step after the page loop succeeds on a language map, every size in the
  map is a number and \<^verbatim>\<open>langs_total\<close> is their sum. If the total is positive, each entry's
  proportion is 100 times its size over the total and the proportions add up to 100; if the
  total is 0, every proportion is 0. Keys and sizes are left as they were. The float
  division is taken as exact division of reals, which is what the claim's tolerance is
  measured against.
\<close>

theorem proportions_sum_to_100:
  assumes "proportions langs = Inr langs'"
  shows "\<exists>tot ns. langs_total langs = Inr tot
     \<and> map (\<lambda>kv. num_of (size_l (snd kv))) langs = map Some ns \<and> tot = sum_list ns
     \<and> map fst langs' = map fst langs
     \<and> map (\<lambda>kv. size_l (snd kv)) langs' = map (\<lambda>kv. size_l (snd kv)) langs
     \<and> (0 < tot \<longrightarrow>
          (\<forall>kv \<in> set langs'. \<exists>n. num_of (size_l (snd kv)) = Some n
              \<and> prop_l (snd kv) = Some (100 * real_of_int n / real_of_int tot))
          \<and> (\<Sum>kv\<leftarrow>langs'. prop_of (snd kv)) = 100)
     \<and> (tot = 0 \<longrightarrow> (\<forall>kv \<in> set langs'. prop_l (snd kv) = Some 0))"
proof -
  from assms obtain tot where tot: "langs_total langs = Inr tot"
    and m: "mapE (set_prop tot) langs = Inr langs'"
    by (auto simp: proportions_def bindE_eq_Inr)
  from tot obtain ns where ns: "map num_of (map (\<lambda>kv. size_l (snd kv)) langs) = map Some ns"
    and sum: "tot = sum_list ns"
    using foldE_int_iadd [of "map (\<lambda>kv. size_l (snd kv)) langs" 0 tot]
    by (auto simp: langs_total_def)
  have all2: "list_all2 (\<lambda>kv kv'. set_prop tot kv = Inr kv') langs langs'"
    using mapE_Inr [OF m] .
  have keep: "list_all2 (\<lambda>kv kv'. fst kv' = fst kv \<and> size_l (snd kv') = size_l (snd kv)) langs langs'"
    using all2 by (rule list_all2_mono) (auto dest: set_prop_keeps)
  have fsts: "map fst langs' = map fst langs"
    using keep by (induction rule: list_all2_induct) auto
  have sizes: "map (\<lambda>kv. size_l (snd kv)) langs' = map (\<lambda>kv. size_l (snd kv)) langs"
    using keep by (induction rule: list_all2_induct) auto
  have pos: "\<forall>kv \<in> set langs'. \<exists>n. num_of (size_l (snd kv)) = Some n
              \<and> prop_l (snd kv) = Some (100 * real_of_int n / real_of_int tot)" if "0 < tot"
  proof
    fix kv' assume "kv' \<in> set langs'"
    then obtain kv where "set_prop tot kv = Inr kv'"
      using list_all2_right [OF all2] by blast
    from set_prop_pos [OF that this]
    show "\<exists>n. num_of (size_l (snd kv')) = Some n
              \<and> prop_l (snd kv') = Some (100 * real_of_int n / real_of_int tot)"
      by auto
  qed
  have total: "(\<Sum>kv\<leftarrow>langs'. prop_of (snd kv)) = 100" if "0 < tot"
    using props_sum_aux [OF all2 that ns] that sum by simp
  have zero: "\<forall>kv \<in> set langs'. prop_l (snd kv) = Some 0" if "tot = 0"
  proof
    fix kv' assume "kv' \<in> set langs'"
    then obtain kv where "set_prop tot kv = Inr kv'"
      using list_all2_right [OF all2] by blast
    with that show "prop_l (snd kv') = Some 0"
      using set_prop_nonpos [of tot kv kv'] by simp
  qed
  from tot ns sum fsts sizes pos total zero show ?thesis
    by (intro exI [of _ tot] exI [of _ ns]) (simp add: comp_def)
qed

theorem proportions_sum_to_100_witness:
  "proportions example_langs = Inr example_langs_done
   \<and> (\<Sum>kv\<leftarrow>example_langs_done. prop_of (snd kv)) = 100"
proof -
  have h: "proportions example_langs = Inr example_langs_done"
    by (simp add: proportions_def langs_total_def example_langs_def example_langs_done_def
        set_prop_def int_iadd_def)
  from proportions_sum_to_100 [OF h] h show ?thesis
    by (auto simp: example_langs_def langs_total_def int_iadd_def)
qed

subsection \<open>Concrete runs\<close>

text \<open>
  Claim C3. Every accessor is to return its memoized value on a second read without a further
  fetch, \<^verbatim>\<open>total_commits\<close> included. \<^verbatim>\<open>total_commits\<close> neither reads nor writes
  \<^verbatim>\<open>_total_commits\<close>: read twice on the same object, it sends its query twice, and when the
  replies differ so do the two values.
\<close>

theorem total_commits_not_memoized:
  "total_commits changing 0 (init ''octo'' None None False None)
     = Inr (JInt 5, init ''octo'' None None False None, 1)
   \<and> total_commits changing 1 (init ''octo'' None None False None)
     = Inr (JInt 7, init ''octo'' None None False None, 2)"
  by code_simp

text \<open>
  Claim C1. Consumers that ask for a statistic while the core fetch is in flight are to wait
  for it and then see its result. \<^verbatim>\<open>get_stats\<close> sets \<^verbatim>\<open>_stargazers\<close> to 0 before its first
  query, so between entering and the first reply another coroutine that awaits
  \<^verbatim>\<open>stargazers\<close> finds the attribute set and gets 0 at once, with no exchange, although a
  direct call of \<^verbatim>\<open>get_stats\<close> at that point would wait for the lock; the completed fetch
  gives 2.
\<close>

theorem stargazers_read_during_fetch:
  "(case get_stats_enter (init ''octo'' None None False None) of
      Starts s1 \<Rightarrow>
        stargazers (always (one_repo_page [])) 0 s1 = Some (Inr (0, s1, 0)) \<and> get_stats_enter s1 = Waits
    | _ \<Rightarrow> False)
   \<and> map_option (map_sum id fst)
        (stargazers (always (one_repo_page [])) 0 (init ''octo'' None None False None)) = Some (Inr 2)"
  by code_simp

subsection \<open>REST calls\<close>

lemma repo_lines_empty: "repo_lines user (JObj []) acc = acc"
  by (simp add: repo_lines_def)

lemma repo_views_empty: "repo_views (JObj []) tot = tot"
  by (simp add: repo_views_def)

lemma rest_attempt_404:
  assumes "receives 404 (net i (Get (strip_slash path)))"
  shows "rest_attempts net i path (Suc k) = (JObj [], Suc i)"
proof -
  obtain a f where x: "net i (Get (strip_slash path)) = (a, f)"
    by (cases "net i (Get (strip_slash path))") auto
  show ?thesis
  proof (cases a)
    case ConnError
    with assms x obtain b where "f = Resp 404 b"
      by (cases f) (simp_all add: receives_def)
    with ConnError x show ?thesis by (simp add: rest_attempts.simps Let_def)
  next
    case (Resp s b)
    show ?thesis
    proof (cases "s = 404")
      case True
      with Resp x show ?thesis by (simp add: rest_attempts.simps Let_def)
    next
      case False
      with assms x Resp obtain b' where "s \<noteq> 202" "s \<noteq> 403" "b = None" "f = Resp 404 b'"
        by (cases f) (simp_all add: receives_def)
      with False Resp x show ?thesis by (simp add: rest_attempts.simps Let_def)
    qed
  qed
qed

lemma rest_attempt_retry:
  assumes "receives 202 (net i (Get (strip_slash path))) \<or> receives 403 (net i (Get (strip_slash path)))"
  shows "rest_attempts net i path (Suc k) = rest_attempts net (Suc i) (strip_slash path) k"
proof -
  obtain a f where x: "net i (Get (strip_slash path)) = (a, f)"
    by (cases "net i (Get (strip_slash path))") auto
  show ?thesis
  proof (cases a)
    case ConnError
    with assms x obtain b where "f = Resp 202 b \<or> f = Resp 403 b"
      by (cases f) (auto simp: receives_def)
    with ConnError x show ?thesis by (auto simp: rest_attempts.simps Let_def)
  next
    case (Resp s b)
    show ?thesis
    proof (cases "s = 202 \<or> s = 403")
      case True
      with Resp x show ?thesis by (auto simp: rest_attempts.simps Let_def)
    next
      case False
      with assms x Resp obtain b' where "s \<noteq> 404" "b = None" "f = Resp 202 b' \<or> f = Resp 403 b'"
        by (cases f) (auto simp: receives_def)
      with False Resp x show ?thesis by (auto simp: rest_attempts.simps Let_def)
    qed
  qed
qed

lemma path_at_Suc: "path_at path (Suc j) = path_at (strip_slash path) j"
  by (simp add: path_at_def funpow_swap1)

lemma rest_attempts_404_after_retries:
  assumes "\<forall>j<m. receives 202 (net (i + j) (Get (path_at path j)))
                 \<or> receives 403 (net (i + j) (Get (path_at path j)))"
    and "receives 404 (net (i + m) (Get (path_at path m)))"
  shows "rest_attempts net i path (Suc (m + k)) = (JObj [], Suc (i + m))"
  using assms
proof (induction m arbitrary: i path)
  case 0
  then show ?case
    using rest_attempt_404 [of net i path k] by (simp add: path_at_def)
next
  case (Suc m)
  from Suc.prems(1) have first: "receives 202 (net i (Get (strip_slash path)))
      \<or> receives 403 (net i (Get (strip_slash path)))"
    by (auto simp: path_at_def dest: spec [of _ 0])
  have rest: "\<forall>j<m. receives 202 (net (Suc i + j) (Get (path_at (strip_slash path) j)))
                 \<or> receives 403 (net (Suc i + j) (Get (path_at (strip_slash path) j)))"
  proof (intro allI impI)
    fix j assume "j < m"
    then have "Suc j < Suc m" by simp
    with Suc.prems(1) have "receives 202 (net (i + Suc j) (Get (path_at path (Suc j))))
                 \<or> receives 403 (net (i + Suc j) (Get (path_at path (Suc j))))"
      by blast
    then show "receives 202 (net (Suc i + j) (Get (path_at (strip_slash path) j)))
                 \<or> receives 403 (net (Suc i + j) (Get (path_at (strip_slash path) j)))"
      by (simp add: path_at_Suc)
  qed
  from Suc.prems(2) have last: "receives 404 (net (Suc i + m) (Get (path_at (strip_slash path) m)))"
    by (simp add: path_at_Suc)
  have "rest_attempts net i path (Suc (Suc m + k)) = rest_attempts net (Suc i) (strip_slash path) (Suc (m + k))"
    using rest_attempt_retry [of net i path "Suc (m + k)"] first by simp
  also have "\<dots> = (JObj [], Suc (Suc i + m))"
    using Suc.IH [OF rest last] .
  finally show ?case by simp
qed

text \<open>
  Claim C7. A REST request that receives 404 at its attempt \<open>m\<close>, from either client, after
  attempts that received 202 or 403, returns the empty dict right after that exchange: the
  remaining attempts are not used. In \<^verbatim>\<open>lines_changed\<close> and in \<^verbatim>\<open>views\<close>, a repository whose
  REST call returns the empty dict leaves the sums as they are, and the loop goes on with the
  remaining repositories.
\<close>

theorem rest_404_contributes_nothing:
  "(m < 60 \<longrightarrow>
      (\<forall>j<m. receives 202 (net (i + j) (Get (path_at path j)))
            \<or> receives 403 (net (i + j) (Get (path_at path j)))) \<longrightarrow>
      receives 404 (net (i + m) (Get (path_at path m))) \<longrightarrow>
      query_rest net i path = (JObj [], Suc (i + m)))
   \<and> (query_rest net i (repo_path repo ''/stats/contributors'') = (JObj [], i') \<longrightarrow>
        lines_loop net user (repo # rest) i acc = lines_loop net user rest i' acc)
   \<and> (query_rest net i (repo_path repo ''/traffic/views'') = (JObj [], i') \<longrightarrow>
        views_loop net (repo # rest) i tot = views_loop net rest i' tot)"
proof -
  have "query_rest net i path = (JObj [], Suc (i + m))"
    if m: "m < 60"
      and retries: "\<forall>j<m. receives 202 (net (i + j) (Get (path_at path j)))
            \<or> receives 403 (net (i + j) (Get (path_at path j)))"
      and found: "receives 404 (net (i + m) (Get (path_at path m)))"
  proof -
    from m have "(60::nat) = Suc (m + (59 - m))" by simp
    then have "query_rest net i path = rest_attempts net i path (Suc (m + (59 - m)))"
      unfolding query_rest_def by (rule arg_cong)
    with rest_attempts_404_after_retries [OF retries found, of "59 - m"] show ?thesis
      by simp
  qed
  then show ?thesis
    by (simp add: repo_lines_empty repo_views_empty)
qed

theorem rest_404_contributes_nothing_witness:
  "query_rest slow_gone_net 0 (repo_path (JStr ''octo/gone'') ''/stats/contributors'') = (JObj [], 3)
   \<and> lines_loop slow_gone_net ''octo'' [JStr ''octo/gone'', JStr ''octo/site''] 0 (0, 0) = ((11, 4), 4)
   \<and> query_rest gone_net 1 (repo_path (JStr ''octo/gone'') ''/traffic/views'') = (JObj [], 2)
   \<and> views_loop gone_net [JStr ''octo/gone'', JStr ''octo/site''] 1 0 = (9, 3)"
proof -
  let ?lines = "repo_path (JStr ''octo/gone'') ''/stats/contributors''"
  let ?views = "repo_path (JStr ''octo/gone'') ''/traffic/views''"
  have m: "(2::nat) < 60" "(0::nat) < 60" by simp_all
  have a0: "receives 202 (slow_gone_net (0 + 0) (Get (path_at ?lines 0)))"
    by code_simp
  have a1: "receives 403 (slow_gone_net (0 + Suc 0) (Get (path_at ?lines (Suc 0))))"
    by code_simp
  have r: "\<forall>j<2. receives 202 (slow_gone_net (0 + j) (Get (path_at ?lines j)))
                \<or> receives 403 (slow_gone_net (0 + j) (Get (path_at ?lines j)))"
  proof (intro allI impI)
    fix j :: nat assume "j < 2"
    then have "j = 0 \<or> j = Suc 0" by auto
    with a0 a1 show "receives 202 (slow_gone_net (0 + j) (Get (path_at ?lines j)))
                \<or> receives 403 (slow_gone_net (0 + j) (Get (path_at ?lines j)))"
      by blast
  qed
  have f: "receives 404 (slow_gone_net (0 + 2) (Get (path_at ?lines 2)))"
    by code_simp
  have r0: "\<forall>j<0. receives 202 (gone_net (1 + j) (Get (path_at ?views j)))
                \<or> receives 403 (gone_net (1 + j) (Get (path_at ?views j)))"
    by simp
  have f0: "receives 404 (gone_net (1 + 0) (Get (path_at ?views 0)))"
    by code_simp
  have c: "lines_loop slow_gone_net ''octo'' [JStr ''octo/site''] 3 (0, 0) = ((11, 4), 4)"
    by code_simp
  have d: "views_loop gone_net [JStr ''octo/site''] 2 0 = (9, 3)"
    by code_simp
  note lines = rest_404_contributes_nothing [of 2 slow_gone_net 0 ?lines "JStr ''octo/gone''" 3
      "''octo''" "[JStr ''octo/site'']" "(0, 0)"]
  note views = rest_404_contributes_nothing [of 0 gone_net 1 ?views "JStr ''octo/gone''" 2
      "''octo''" "[JStr ''octo/site'']" "(0, 0)" 0]
  from lines m(1) r f have "query_rest slow_gone_net 0 ?lines = (JObj [], Suc (0 + 2))"
    by blast
  then have q1: "query_rest slow_gone_net 0 ?lines = (JObj [], 3)"
    by simp
  with lines have "lines_loop slow_gone_net ''octo'' (JStr ''octo/gone'' # [JStr ''octo/site'']) 0 (0, 0)
      = lines_loop slow_gone_net ''octo'' [JStr ''octo/site''] 3 (0, 0)"
    by blast
  with c have l: "lines_loop slow_gone_net ''octo'' [JStr ''octo/gone'', JStr ''octo/site''] 0 (0, 0)
      = ((11, 4), 4)"
    by (simp only:)
  from views m(2) r0 f0 have "query_rest gone_net 1 ?views = (JObj [], Suc (1 + 0))"
    by blast
  then have q2: "query_rest gone_net 1 ?views = (JObj [], 2)"
    by simp
  with views have "views_loop gone_net (JStr ''octo/gone'' # [JStr ''octo/site'']) 1 0
      = views_loop gone_net [JStr ''octo/site''] 2 0"
    by blast
  with d have v: "views_loop gone_net [JStr ''octo/gone'', JStr ''octo/site''] 1 0 = (9, 3)"
    by (simp only:)
  from q1 l q2 v show ?thesis by (simp only: simp_thms)
qed

subsection \<open>Total commits\<close>

lemma foldE_commits:
  assumes step: "\<And>a j e. commits_for_email net u (a, j) e = Inr (a + n, Suc j)"
  shows "foldE (commits_for_email net u) es (a, j) = Inr (a + int (length es) * n, j + length es)"
proof (induction es arbitrary: a j)
  case Nil
  then show ?case by simp
next
  case (Cons e es)
  have "foldE (commits_for_email net u) (e # es) (a, j)
        = foldE (commits_for_email net u) es (a + n, Suc j)"
    by (simp add: step)
  also have "\<dots> = Inr (a + n + int (length es) * n, Suc j + length es)"
    by (rule Cons.IH)
  finally show ?case
    by (simp add: algebra_simps)
qed

text \<open>
  Claim C10. The document built in the loop over the emails does not depend on the email.
  On a network that answers that document and the document of the branch without emails in
  the same way at every exchange, if the single query of the branch without emails gives a
  count \<open>n\<close>, then \<^verbatim>\<open>total_commits\<close> with \<open>k\<close> emails gives \<open>k * n\<close>, after \<open>k\<close>
  exchanges.
\<close>

theorem total_commits_counts_username_once_per_email:
  assumes det: "\<forall>j e. net j (Post (commits_query_email (username st) e)) = reply
                    \<and> net j (Post (commits_query_user (username st))) = reply"
    and em: "emails st = Some es" "es \<noteq> []"
    and single: "total_commits net i (st\<lparr>emails := None\<rparr>) = Inr (c, st0, i0)"
    and num: "num_of c = Some n"
  shows "(\<forall>e1 e2. commits_query_email (username st) e1 = commits_query_email (username st) e2)
         \<and> total_commits net i st = Inr (JInt (int (length es) * n), st, i + length es)"
proof -
  let ?u = "username st"
  obtain R where user: "\<And>j. query net j (commits_query_user ?u) = (R, Suc j)"
    and email: "\<And>j e. query net j (commits_query_email ?u e) = (R, Suc j)"
    using det by (cases reply) (simp add: query_def)
  from single user [of i] obtain response copt where R: "R = Inr response"
    and rc: "response_commits response = Inr copt"
    and c: "c = (case copt of Some t \<Rightarrow> t | None \<Rightarrow> JInt 0)"
    by (cases R) (auto simp: total_commits_def bindE_eq_Inr)
  have step: "commits_for_email net ?u (a, j) e = Inr (a + n, Suc j)" for a j e
  proof (cases copt)
    case None
    with c num have "n = 0" by simp
    with None show ?thesis
      by (simp add: commits_for_email_def email R rc)
  next
    case (Some t)
    with c num have "int_iadd a t = Inr (a + n)"
      by (simp add: int_iadd_def)
    with Some show ?thesis
      by (simp add: commits_for_email_def email R rc)
  qed
  from em obtain e es' where es: "es = e # es'"
    by (cases es) auto
  have "total_commits net i st = Inr (JInt (int (length es) * n), st, i + length es)"
    using foldE_commits [of net ?u n es 0 i, OF step] em
    by (simp add: total_commits_def es)
  then show ?thesis
    by (simp add: commits_query_email_def)
qed

theorem total_commits_counts_username_once_per_email_witness:
  "total_commits (always (commits_reply 5)) 0 (init ''octo'' None None False (Some [''a@x.org'', ''b@x.org'', ''c@x.org'']))
     = Inr (JInt 15, init ''octo'' None None False (Some [''a@x.org'', ''b@x.org'', ''c@x.org'']), 3)"
proof -
  let ?st = "init ''octo'' None None False (Some [''a@x.org'', ''b@x.org'', ''c@x.org''])"
  have det: "\<forall>j e. always (commits_reply 5) j (Post (commits_query_email (username ?st) e))
                       = (Resp 200 (Some (commits_reply 5)), ConnError)
                 \<and> always (commits_reply 5) j (Post (commits_query_user (username ?st)))
                       = (Resp 200 (Some (commits_reply 5)), ConnError)"
    by (simp add: always_def)
  have em: "emails ?st = Some [''a@x.org'', ''b@x.org'', ''c@x.org'']"
    by (simp add: init_def)
  have single: "total_commits (always (commits_reply 5)) 0 (?st\<lparr>emails := None\<rparr>)
                  = Inr (JInt 5, ?st\<lparr>emails := None\<rparr>, 1)"
    by code_simp
  from total_commits_counts_username_once_per_email [OF det em _ single]
  show ?thesis
    by simp
qed

subsection \<open>Termination of the page loop\<close>

lemma query_counts: "snd (query net i d) = Suc i"
  by (simp add: query_def split: prod.splits)

lemma fetch_page_Inr:
  assumes "fetch_page net i st no nc = Inr (st', i', nxt)"
  shows "i' = Suc i \<and> (\<exists>d raw. fst (query net i d) = Inr raw \<and> page_step st raw no nc = Inr (st', nxt))"
proof -
  from assms obtain doc where doc: "repos_overview nc no = Inr doc"
    and rest: "(case query net i doc of
                  (Inl e, i') \<Rightarrow> Inl e
                | (Inr raw, i') \<Rightarrow>
                    bindE (page_step st raw no nc) (\<lambda>(st', nxt). Inr (st', i', nxt))) = Inr (st', i', nxt)"
    unfolding fetch_page_def bindE_eq_Inr by blast
  obtain r j where q: "query net i doc = (r, j)"
    by (cases "query net i doc") auto
  with query_counts [of net i doc] have j: "j = Suc i" by simp
  from rest q obtain raw where r: "r = Inr raw"
    by (cases r) auto
  from rest q r j have "page_step st raw no nc = Inr (st', nxt) \<and> i' = Suc i"
    by (auto simp: bindE_eq_Inr)
  with q r show ?thesis
    by (metis fst_conv)
qed

lemma page_step_cursors:
  assumes "page_step st raw no nc = Inr (st', nxt)"
  shows "\<exists>viewer owned contrib.
           viewer_of (if raw \<noteq> JNull then raw else JObj []) = Inr viewer
         \<and> dict_get viewer ''repositoriesContributedTo'' (JObj []) = Inr contrib
         \<and> dict_get viewer ''repositories'' (JObj []) = Inr owned
         \<and> next_cursors owned contrib no nc = Inr nxt"
  using assms unfolding page_step_def Let_def bindE_eq_Inr
  by blast

lemma dict_get_Inr_dict: "dict_get v k d = Inr x \<Longrightarrow> \<exists>kvs. v = JObj kvs"
  by (cases v) simp_all

lemma end_cursor_ok:
  assumes "has_next_page conn = Inr a"
  shows "\<exists>c. end_cursor conn cur = Inr c"
proof -
  from assms obtain info h where info: "dict_get conn ''pageInfo'' (JObj []) = Inr info"
    and "dict_get info ''hasNextPage'' (JBool False) = Inr h"
    unfolding has_next_page_def bindE_eq_Inr by blast
  from dict_get_Inr_dict [OF this(2)] obtain kvs where "info = JObj kvs" by blast
  with info show ?thesis
    by (simp add: end_cursor_def)
qed

lemma next_cursors_characterised:
  assumes "has_next_page owned = Inr a" "has_next_page contrib = Inr b"
  shows "\<exists>nxt. next_cursors owned contrib no nc = Inr nxt \<and> (nxt = None \<longleftrightarrow> \<not> a \<and> \<not> b)"
proof -
  from end_cursor_ok [OF assms(1)] obtain co where co: "end_cursor owned no = Inr co" by blast
  from end_cursor_ok [OF assms(2)] obtain cc where cc: "end_cursor contrib nc = Inr cc" by blast
  show ?thesis
    by (simp add: next_cursors_def assms co cc)
qed

lemma page_step_final:
  assumes "final_page raw" "page_step st raw no nc = Inr (st', nxt)"
  shows "nxt = None"
proof -
  from assms(1) have nn: "raw \<noteq> JNull"
    by (auto simp: final_page_def viewer_of_def)
  from page_step_cursors [OF assms(2)] nn obtain viewer owned contrib where
    v: "viewer_of raw = Inr viewer"
    and c: "dict_get viewer ''repositoriesContributedTo'' (JObj []) = Inr contrib"
    and o: "dict_get viewer ''repositories'' (JObj []) = Inr owned"
    and n: "next_cursors owned contrib no nc = Inr nxt"
    by auto
  from assms(1) v c o have "has_next_page owned = Inr False" "has_next_page contrib = Inr False"
    by (simp_all add: final_page_def)
  from next_cursors_characterised [OF this, of no nc] n show ?thesis
    by simp
qed

lemma query_not_null: "fst (query net i d) = Inr raw \<Longrightarrow> raw \<noteq> JNull"
  by (auto simp: query_def split: prod.splits sum.splits if_splits)

lemma fetch_page_sent:
  assumes "fetch_page net i st no nc = Inr (st', i', nxt)"
  shows "i' = Suc i \<and> (\<exists>d raw. repos_overview nc no = Inr d \<and> fst (query net i d) = Inr raw
           \<and> raw \<noteq> JNull \<and> page_step st raw no nc = Inr (st', nxt))"
proof -
  from assms obtain doc where doc: "repos_overview nc no = Inr doc"
    and rest: "(case query net i doc of
                  (Inl e, i') \<Rightarrow> Inl e
                | (Inr raw, i') \<Rightarrow>
                    bindE (page_step st raw no nc) (\<lambda>(st', nxt). Inr (st', i', nxt))) = Inr (st', i', nxt)"
    unfolding fetch_page_def bindE_eq_Inr by blast
  obtain r j where q: "query net i doc = (r, j)"
    by (cases "query net i doc") auto
  with query_counts [of net i doc] have j: "j = Suc i" by simp
  from rest q obtain raw where r: "r = Inr raw"
    by (cases r) auto
  from rest q r j have ps: "page_step st raw no nc = Inr (st', nxt)" and i': "i' = Suc i"
    by (auto simp: bindE_eq_Inr)
  from q r have f: "fst (query net i doc) = Inr raw" by simp
  from query_not_null [OF f] doc f ps i' show ?thesis by blast
qed

lemma has_next_page_False:
  assumes "next_cursors owned contrib no nc = Inr None"
  shows "has_next_page owned = Inr False \<and> has_next_page contrib = Inr False"
proof -
  from assms obtain a where a: "has_next_page owned = Inr a"
    and rest: "bindE (if a then Inr True else has_next_page contrib) (\<lambda>more.
       if more then
         bindE (end_cursor owned no) (\<lambda>next_owned'.
         bindE (end_cursor contrib nc) (\<lambda>next_contrib'.
           Inr (Some (next_owned', next_contrib'))))
       else Inr None) = Inr None"
    unfolding next_cursors_def bindE_eq_Inr by blast
  from rest obtain more where m: "(if a then Inr True else has_next_page contrib) = Inr more"
    and fin: "(if more then
         bindE (end_cursor owned no) (\<lambda>next_owned'.
         bindE (end_cursor contrib nc) (\<lambda>next_contrib'.
           Inr (Some (next_owned', next_contrib'))))
       else Inr None) = Inr None"
    unfolding bindE_eq_Inr by blast
  from fin have "\<not> more"
    by (auto simp: bindE_eq_Inr split: if_splits)
  with m a show ?thesis
    by (auto split: if_splits)
qed

lemma page_step_not_final:
  assumes "\<not> final_page raw" "raw \<noteq> JNull" "page_step st raw no nc = Inr (st', nxt)"
  shows "nxt \<noteq> None"
proof
  assume none: "nxt = None"
  from page_step_cursors [OF assms(3)] assms(2) obtain viewer owned contrib where
    v: "viewer_of raw = Inr viewer"
    and c: "dict_get viewer ''repositoriesContributedTo'' (JObj []) = Inr contrib"
    and o: "dict_get viewer ''repositories'' (JObj []) = Inr owned"
    and n: "next_cursors owned contrib no nc = Inr nxt"
    by auto
  from has_next_page_False [of owned contrib no nc] n none
  have "has_next_page owned = Inr False" "has_next_page contrib = Inr False"
    by simp_all
  with v c o have "final_page raw"
    by (simp add: final_page_def)
  with assms(1) show False by simp
qed

lemma pages_loop_exchanges:
  assumes fin: "\<forall>no nc d raw. repos_overview nc no = Inr d \<longrightarrow> fst (query net n d) = Inr raw \<longrightarrow> final_page raw"
    and more: "\<forall>j no nc d raw. i0 \<le> j \<longrightarrow> j < n \<longrightarrow> repos_overview nc no = Inr d \<longrightarrow>
                 fst (query net j d) = Inr raw \<longrightarrow> \<not> final_page raw"
  shows "i0 \<le> i \<Longrightarrow> i \<le> n \<Longrightarrow> pages_loop net i st no nc = Some (Inr (st', i')) \<Longrightarrow> i' = Suc n"
proof (induction "n - i" arbitrary: i st no nc)
  case 0
  then have i: "i = n" by simp
  from "0.prems"(3) obtain s1 i1 nxt where fp: "fetch_page net i st no nc = Inr (s1, i1, nxt)"
    by (subst (asm) pages_loop.simps) (auto split: sum.splits)
  from fetch_page_sent [OF fp] fin i have "nxt = None" "i1 = Suc n"
    using page_step_final by blast+
  with "0.prems"(3) fp show ?case
    by (subst (asm) pages_loop.simps) simp
next
  case (Suc k)
  from Suc.prems(3) obtain s1 i1 nxt where fp: "fetch_page net i st no nc = Inr (s1, i1, nxt)"
    by (subst (asm) pages_loop.simps) (auto split: sum.splits)
  from Suc.hyps(2) have lt: "i < n" by simp
  from fetch_page_sent [OF fp] more Suc.prems(1) lt have "nxt \<noteq> None" and i1: "i1 = Suc i"
    using page_step_not_final by blast+
  then obtain o' c' where nxt: "nxt = Some (o', c')" by (cases nxt) auto
  from Suc.prems(3) fp nxt i1 have loop: "pages_loop net (Suc i) s1 o' c' = Some (Inr (st', i'))"
    by (subst (asm) pages_loop.simps) simp
  from Suc.hyps(2) Suc.prems(1) lt have "k = n - Suc i" "i0 \<le> Suc i" "Suc i \<le> n" by simp_all
  from Suc.hyps(1) [OF this loop] show ?case .
qed

lemma pages_loop_returns:
  assumes fin: "\<forall>no nc d raw. repos_overview nc no = Inr d \<longrightarrow> fst (query net n d) = Inr raw \<longrightarrow> final_page raw"
  shows "i \<le> n \<Longrightarrow> \<exists>r. pages_loop net i st no nc = Some r"
proof (induction "n - i" arbitrary: i st no nc)
  case 0
  then have i: "i = n" by simp
  show ?case
  proof (cases "fetch_page net i st no nc")
    case (Inl e)
    then show ?thesis by (subst pages_loop.simps) simp
  next
    case (Inr res)
    obtain st' i' nxt where res: "res = (st', i', nxt)"
      by (cases res) auto
    from fetch_page_sent [OF Inr [unfolded res]] fin i have "nxt = None"
      using page_step_final by blast
    with Inr res show ?thesis by (subst pages_loop.simps) simp
  qed
next
  case (Suc k)
  show ?case
  proof (cases "fetch_page net i st no nc")
    case (Inl e)
    then show ?thesis by (subst pages_loop.simps) simp
  next
    case (Inr res)
    obtain st' i' nxt where res: "res = (st', i', nxt)"
      by (cases res) auto
    from fetch_page_sent [OF Inr [unfolded res]] have i': "i' = Suc i"
      by simp
    show ?thesis
    proof (cases nxt)
      case None
      with Inr res show ?thesis by (subst pages_loop.simps) simp
    next
      case (Some cs)
      obtain o' c' where cs: "cs = (o', c')" by (cases cs) auto
      from Suc.hyps(2) Suc.prems have "k = n - Suc i" "Suc i \<le> n" by simp_all
      from Suc.hyps(1) [OF this] obtain r where "pages_loop net (Suc i) st' o' c' = Some r"
        by blast
      with Inr res Some cs i' show ?thesis by (subst pages_loop.simps) simp
    qed
  qed
qed

lemma get_stats_exchanges:
  assumes "get_stats net i st = Some (Inr (st', i'))" "\<not> stats_fetched st"
  shows "\<exists>s s2. get_stats_enter st = Starts s \<and> pages_loop net i s JNull JNull = Some (Inr (s2, i'))"
proof (cases "get_stats_enter st")
  case Waits
  with assms(1) show ?thesis by (simp add: get_stats_def)
next
  case (Fetched s)
  with assms(2) show ?thesis
    by (auto simp: get_stats_enter_def Let_def split: if_splits)
next
  case (Starts s)
  with assms(1) show ?thesis
    by (auto simp: get_stats_def bindE_eq_Inr split: option.splits sum.splits)
qed

text \<open>
  Claim C6. A sequence of pages is a network whose reply depends on the exchange only; the
  hypotheses speak of the replies to the overview queries sent at an exchange. If the reply
  at some exchange \<open>n\<close> at or after the start of the fetch has both connections reporting
  no further page, and the lock is free, then \<^verbatim>\<open>get_stats\<close> returns (with its result or
  with an exception). If moreover every reply before \<open>n\<close> has a connection that reports a
  further page, a run that fetches and succeeds has made exactly the exchanges from the
  first up to \<open>n\<close>: the loop goes on while a connection reports a further page and stops at
  the first reply where neither does. In the loop body the cursors are \<open>None\<close>, the
  \<^verbatim>\<open>break\<close>, if and only if neither connection reports a further page.
\<close>

theorem core_fetch_terminates:
  assumes "i \<le> n"
    and "\<forall>no nc d raw. repos_overview nc no = Inr d \<longrightarrow> fst (query net n d) = Inr raw \<longrightarrow> final_page raw"
    and "stats_lock st \<noteq> Some True"
  shows "(\<exists>r. get_stats net i st = Some r)
       \<and> (\<not> stats_fetched st \<longrightarrow>
            (\<forall>j no nc d raw. i \<le> j \<longrightarrow> j < n \<longrightarrow> repos_overview nc no = Inr d \<longrightarrow>
                fst (query net j d) = Inr raw \<longrightarrow> \<not> final_page raw) \<longrightarrow>
            (\<forall>st' i'. get_stats net i st = Some (Inr (st', i')) \<longrightarrow> i' = Suc n))
       \<and> (\<forall>owned contrib no nc a b.
            has_next_page owned = Inr a \<longrightarrow> has_next_page contrib = Inr b \<longrightarrow>
            (\<exists>nxt. next_cursors owned contrib no nc = Inr nxt \<and> (nxt = None \<longleftrightarrow> \<not> a \<and> \<not> b)))"
proof -
  have returns: "\<exists>r. get_stats net i st = Some r"
  proof (cases "get_stats_enter st")
    case Waits
    with assms(3) show ?thesis
      by (auto simp: get_stats_enter_def Let_def split: if_splits)
  next
    case (Fetched s)
    then show ?thesis by (simp add: get_stats_def)
  next
    case (Starts s)
    from pages_loop_returns [OF assms(2) assms(1)]
    obtain r where "pages_loop net i s JNull JNull = Some r" by blast
    with Starts show ?thesis
      by (cases r) (auto simp: get_stats_def)
  qed
  have count: "i' = Suc n"
    if "\<not> stats_fetched st"
      and more: "\<forall>j no nc d raw. i \<le> j \<longrightarrow> j < n \<longrightarrow> repos_overview nc no = Inr d \<longrightarrow>
                fst (query net j d) = Inr raw \<longrightarrow> \<not> final_page raw"
      and run: "get_stats net i st = Some (Inr (st', i'))" for st' i'
  proof -
    from get_stats_exchanges [OF run that(1)] obtain s s2 where
      "pages_loop net i s JNull JNull = Some (Inr (s2, i'))" by blast
    with pages_loop_exchanges [OF assms(2) more _ assms(1)] show ?thesis
      by blast
  qed
  from returns count show ?thesis
    using next_cursors_characterised by blast
qed

theorem core_fetch_terminates_witness:
  "final_page (one_repo_page [lang_edge ''Python'' 300])
   \<and> \<not> final_page first_page
   \<and> get_stats two_pages 0 (init ''octo'' (Some [''octo/old'']) None False None)
        = Some (Inr (two_pages_result, Suc 1))
   \<and> (\<exists>nxt. next_cursors (connection True (JStr ''Y3Vyc29yOjE='') []) (connection False JNull []) JNull JNull
               = Inr nxt \<and> nxt \<noteq> None)"
proof -
  let ?st = "init ''octo'' (Some [''octo/old'']) None False None"
  have a: "(0::nat) \<le> 1" by simp
  have f: "final_page (one_repo_page [lang_edge ''Python'' 300])"
    by code_simp
  have nf: "\<not> final_page first_page"
    by code_simp
  have q1: "fst (query two_pages 1 d) = Inr (one_repo_page [lang_edge ''Python'' 300])" for d
    by (simp add: query_def two_pages_def one_repo_page_def overview_reply_def)
  have q0: "fst (query two_pages 0 d) = Inr first_page" for d
    by (simp add: query_def two_pages_def first_page_def overview_reply_def)
  from f q1 have b: "\<forall>no nc d raw. repos_overview nc no = Inr d \<longrightarrow>
      fst (query two_pages 1 d) = Inr raw \<longrightarrow> final_page raw"
    by auto
  have c: "stats_lock ?st \<noteq> Some True" and unfetched: "\<not> stats_fetched ?st"
    by (simp_all add: init_def)
  have more: "\<forall>j no nc d raw. 0 \<le> j \<longrightarrow> j < 1 \<longrightarrow> repos_overview nc no = Inr d \<longrightarrow>
                fst (query two_pages j d) = Inr raw \<longrightarrow> \<not> final_page raw"
    using nf q0 by auto
  have run: "get_stats two_pages 0 ?st = Some (Inr (two_pages_result, 2))"
    by code_simp
  have o: "has_next_page (connection True (JStr ''Y3Vyc29yOjE='') []) = Inr True"
    and n: "has_next_page (connection False JNull []) = Inr False"
    by (simp_all add: has_next_page_def connection_def)
  note main = core_fetch_terminates [OF a b c]
  from main unfetched more run have "(2::nat) = Suc 1"
    by blast
  with run have r: "get_stats two_pages 0 ?st = Some (Inr (two_pages_result, Suc 1))"
    by (simp only:)
  from main have "\<exists>nxt. next_cursors (connection True (JStr ''Y3Vyc29yOjE='') []) (connection False JNull [])
      JNull JNull = Inr nxt \<and> (nxt = None \<longleftrightarrow> \<not> True \<and> \<not> False)"
    using o n by blast
  with f nf r show ?thesis
    by simp
qed

subsection \<open>The set of repositories\<close>

lemma foldE_preserves:
  assumes "\<And>s x s'. f s x = Inr s' \<Longrightarrow> P s \<Longrightarrow> P s'"
  shows "foldE f xs s = Inr s' \<Longrightarrow> P s \<Longrightarrow> P s'"
proof (induction xs arbitrary: s)
  case Nil
  then show ?case by simp
next
  case (Cons x xs)
  from Cons.prems(1) obtain s1 where "f s x = Inr s1" "foldE f xs s1 = Inr s'"
    by (auto simp: bindE_eq_Inr)
  with Cons.IH [of s1] assms [of s x s1] Cons.prems(2) show ?case
    by blast
qed

lemma process_lang_keeps:
  assumes "process_lang ex st lang = Inr st'"
  shows "same_repos st st'"
  using assms unfolding process_lang_def bindE_eq_Inr
  by (auto simp: same_repos_def bindE_eq_Inr split: if_splits json.splits option.splits)

lemma same_repos_trans: "same_repos a b \<Longrightarrow> same_repos b c \<Longrightarrow> same_repos a c"
  by (simp add: same_repos_def)

lemma same_repos_refl: "same_repos a a"
  by (simp add: same_repos_def)

lemma process_langs_keep:
  assumes "foldE (process_lang ex) edges st = Inr st'"
  shows "same_repos st st'"
proof (rule foldE_preserves [where P = "same_repos st", OF _ assms])
  show "same_repos st st" by (rule same_repos_refl)
next
  fix s x s'
  assume "process_lang ex s x = Inr s'" "same_repos st s"
  then show "same_repos st s'"
    using process_lang_keeps same_repos_trans by blast
qed


lemma count_repo_result:
  assumes "count_repo ex st repo nm rs = Inr st'"
  shows "repos_f st' = Some (rs @ [nm]) \<and> exclude_repos st' = exclude_repos st"
proof -
  from assms obtain edges sg' fk' where
    "foldE (process_lang ex) edges (st\<lparr>repos_f := Some (rs @ [nm]), stargazers_f := Some sg',
        forks_f := Some fk'\<rparr>) = Inr st'"
    unfolding count_repo_def bindE_eq_Inr by blast
  from process_langs_keep [OF this] show ?thesis
    by (simp add: same_repos_def)
qed

lemma process_repo_cases:
  assumes "process_repo ex st repo = Inr st'"
  shows "st' = st \<or> (\<exists>nm rs. dict_get repo ''nameWithOwner'' JNull = Inr nm \<and> repos_f st = Some rs
      \<and> hashable nm \<and> key_of nm \<notin> key_of ` set rs \<and> \<not> in_excluded (exclude_repos st) nm
      \<and> repos_f st' = Some (rs @ [nm]) \<and> exclude_repos st' = exclude_repos st)"
proof (cases "repo = JNull")
  case True
  with assms show ?thesis by (simp add: process_repo_def)
next
  case False
  with assms obtain nm where nm: "dict_get repo ''nameWithOwner'' JNull = Inr nm"
    and rest: "(case repos_f st of
           None \<Rightarrow> Inl TypeError
         | Some rs \<Rightarrow>
             bindE (set_contains rs nm) (\<lambda>seen.
               if seen \<or> in_excluded (exclude_repos st) nm then Inr st
               else count_repo ex st repo nm rs)) = Inr st'"
    by (auto simp: process_repo_def bindE_eq_Inr)
  from rest obtain rs where f: "repos_f st = Some rs"
    by (auto split: option.splits)
  with rest obtain seen where seen: "set_contains rs nm = Inr seen"
    and body: "(if seen \<or> in_excluded (exclude_repos st) nm then Inr st
               else count_repo ex st repo nm rs) = Inr st'"
    by (auto simp: bindE_eq_Inr)
  from seen have h: "hashable nm" "seen = (key_of nm \<in> key_of ` set rs)"
    by (auto simp: set_contains_def split: if_splits)
  show ?thesis
  proof (cases "seen \<or> in_excluded (exclude_repos st) nm")
    case True
    with body show ?thesis by simp
  next
    case False
    with body have "count_repo ex st repo nm rs = Inr st'" by simp
    from count_repo_result [OF this] nm f h False show ?thesis by auto
  qed
qed

lemma process_repo_skips:
  assumes "dict_get repo ''nameWithOwner'' JNull = Inr nm" "repos_f st = Some rs" "hashable nm"
    "key_of nm \<in> key_of ` set rs \<or> in_excluded (exclude_repos st) nm"
  shows "process_repo ex st repo = Inr st"
  using assms by (auto simp: process_repo_def set_contains_def)

lemma process_repo_inv:
  assumes "process_repo ex st repo = Inr st'" "repos_inv excl st"
  shows "repos_inv excl st'"
  using process_repo_cases [OF assms(1)] assms(2)
  by (auto simp: repos_inv_def)

lemma process_repos_inv:
  assumes "foldE (process_repo ex) nodes st = Inr st'" "repos_inv excl st"
  shows "repos_inv excl st'"
  using assms(1) assms(2)
  by (rule foldE_preserves [where P = "repos_inv excl", rotated]) (rule process_repo_inv)

lemma page_step_nodes:
  assumes "page_step st raw no nc = Inr (st', nxt)"
  shows "\<exists>ex nodes nm. foldE (process_repo ex) nodes (st\<lparr>name_f := nm\<rparr>) = Inr st'"
  using assms unfolding page_step_def Let_def bindE_eq_Inr
  by blast

lemma page_step_inv:
  assumes "page_step st raw no nc = Inr (st', nxt)" "repos_inv excl st"
  shows "repos_inv excl st'"
proof -
  from page_step_nodes [OF assms(1)] obtain ex nodes nm where
    f: "foldE (process_repo ex) nodes (st\<lparr>name_f := nm\<rparr>) = Inr st'" by blast
  from assms(2) have "repos_inv excl (st\<lparr>name_f := nm\<rparr>)"
    by (simp add: repos_inv_def)
  with f show ?thesis by (rule process_repos_inv)
qed

lemma pages_loop_inv_aux:
  assumes "pages_loop net i st no nc = Some y"
  shows "\<forall>st' i'. y = Inr (st', i') \<longrightarrow> repos_inv excl st \<longrightarrow> repos_inv excl st'"
proof (rule pages_loop.raw_induct [where P = "\<lambda>net i st no nc y.
         \<forall>st' i'. y = Inr (st', i') \<longrightarrow> repos_inv excl st \<longrightarrow> repos_inv excl st'", OF _ assms])
  fix loop :: "network \<Rightarrow> nat \<Rightarrow> stats \<Rightarrow> json \<Rightarrow> json \<Rightarrow> (error + stats \<times> nat) option"
    and net i st no nc y
  assume IH: "\<And>net i st no nc y. loop net i st no nc = Some y \<Longrightarrow>
                \<forall>st' i'. y = Inr (st', i') \<longrightarrow> repos_inv excl st \<longrightarrow> repos_inv excl st'"
    and step: "(case fetch_page net i st no nc of
                  Inl e \<Rightarrow> Some (Inl e)
                | Inr (st', i', None) \<Rightarrow> Some (Inr (st', i'))
                | Inr (st', i', Some (no', nc')) \<Rightarrow> loop net i' st' no' nc') = Some y"
  show "\<forall>st' i'. y = Inr (st', i') \<longrightarrow> repos_inv excl st \<longrightarrow> repos_inv excl st'"
  proof (intro allI impI)
    fix st' i'
    assume y: "y = Inr (st', i')" and inv: "repos_inv excl st"
    from step y obtain s1 i1 nxt where fp: "fetch_page net i st no nc = Inr (s1, i1, nxt)"
      by (cases "fetch_page net i st no nc") (auto split: prod.splits)
    from fetch_page_Inr [OF fp] inv have inv1: "repos_inv excl s1"
      using page_step_inv by blast
    show "repos_inv excl st'"
    proof (cases nxt)
      case None
      with step fp y inv1 show ?thesis by simp
    next
      case (Some cs)
      obtain o' c' where "cs = (o', c')" by (cases cs) auto
      with step fp Some have "loop net i1 s1 o' c' = Some y" by simp
      from IH [OF this] y inv1 show ?thesis by blast
    qed
  qed
qed

lemma pages_loop_inv:
  "pages_loop net i st no nc = Some (Inr (st', i')) \<Longrightarrow> repos_inv excl st \<Longrightarrow> repos_inv excl st'"
  using pages_loop_inv_aux by blast

lemma get_stats_inv:
  assumes "get_stats net i st = Some (Inr (st', i'))" "\<not> stats_fetched st"
  shows "repos_inv (exclude_repos st) st'"
proof (cases "get_stats_enter st")
  case Waits
  with assms(1) show ?thesis by (simp add: get_stats_def)
next
  case (Fetched s)
  with assms(2) show ?thesis
    by (auto simp: get_stats_enter_def Let_def split: if_splits)
next
  case (Starts s)
  then have s: "repos_inv (exclude_repos st) s"
    by (auto simp: get_stats_enter_def Let_def repos_inv_def in_excluded_def split: if_splits)
  from assms(1) Starts obtain s2 where loop: "pages_loop net i s JNull JNull = Some (Inr (s2, i'))"
    and ex: "get_stats_exit s2 = Inr st'"
    by (auto simp: get_stats_def bindE_eq_Inr split: option.splits sum.splits)
  from pages_loop_inv [OF loop s] have "repos_inv (exclude_repos st) s2" .
  moreover from ex have "repos_f st' = repos_f s2" "exclude_repos st' = exclude_repos s2"
    by (auto simp: get_stats_exit_def bindE_eq_Inr split: option.splits)
  ultimately show ?thesis
    by (simp add: repos_inv_def)
qed

text \<open>
  Claim C4. After a run of \<^verbatim>\<open>get_stats\<close> that fetches, the set of repositories has no
  duplicates (also none that Python's set would identify, such as \<open>True\<close> and \<open>1\<close>) and
  holds no excluded identifier. A node whose name is already in the set or is excluded leaves
  the object as it is, so it adds nothing to the stargazers, the forks or the language
  sizes; and a node that changes the object has a name that was not in the set and is added
  to it, so no later node of that name is counted.
\<close>

theorem repositories_distinct_not_excluded_counted_once:
  assumes "get_stats net i st = Some (Inr (st', i'))" and "\<not> stats_fetched st"
  shows "(\<exists>rs. repos_f st' = Some rs \<and> distinct (map key_of rs) \<and> distinct rs
            \<and> (\<forall>x \<in> set (exclude_repos st). JStr x \<notin> set rs))
       \<and> (\<forall>ex s repo nm rs.
            dict_get repo ''nameWithOwner'' JNull = Inr nm \<longrightarrow> repos_f s = Some rs \<longrightarrow>
            hashable nm \<longrightarrow>
            (key_of nm \<in> key_of ` set rs \<or> in_excluded (exclude_repos s) nm) \<longrightarrow>
            process_repo ex s repo = Inr s)
       \<and> (\<forall>ex s repo s'.
            process_repo ex s repo = Inr s' \<longrightarrow>
            s' = s \<or> (\<exists>nm rs. dict_get repo ''nameWithOwner'' JNull = Inr nm \<and> repos_f s = Some rs
               \<and> key_of nm \<notin> key_of ` set rs \<and> \<not> in_excluded (exclude_repos s) nm
               \<and> repos_f s' = Some (rs @ [nm])))"
proof -
  from get_stats_inv [OF assms] obtain rs where rs: "repos_f st' = Some rs"
    and d: "distinct (map key_of rs)"
    and e: "\<forall>nm \<in> set rs. \<not> in_excluded (exclude_repos st) nm"
    by (auto simp: repos_inv_def)
  from d have d': "distinct rs" by (simp add: distinct_map)
  from e have e': "\<forall>x \<in> set (exclude_repos st). JStr x \<notin> set rs"
    by (auto simp: in_excluded_def)
  have skip: "process_repo ex s repo = Inr s"
    if "dict_get repo ''nameWithOwner'' JNull = Inr nm" "repos_f s = Some rs"
      "hashable nm"
      "key_of nm \<in> key_of ` set rs \<or> in_excluded (exclude_repos s) nm"
    for ex s repo nm rs
    using that by (rule process_repo_skips)
  have once: "s' = s \<or> (\<exists>nm rs. dict_get repo ''nameWithOwner'' JNull = Inr nm \<and> repos_f s = Some rs
               \<and> key_of nm \<notin> key_of ` set rs \<and> \<not> in_excluded (exclude_repos s) nm
               \<and> repos_f s' = Some (rs @ [nm]))"
    if "process_repo ex s repo = Inr s'" for ex s repo s'
    using process_repo_cases [OF that] by blast
  from rs d d' e' skip once show ?thesis
    by blast
qed

theorem repositories_distinct_not_excluded_counted_once_witness:
  "get_stats two_pages 0 (init ''octo'' (Some [''octo/old'']) None False None) = Some (Inr (two_pages_result, 2))
   \<and> repos_f two_pages_result = Some [JStr ''octo/site'']
   \<and> stargazers_f two_pages_result = Some 2
   \<and> distinct [JStr ''octo/site'']
   \<and> process_repo [] two_pages_result (repo_node ''octo/site'' 2 1 []) = Inr two_pages_result
   \<and> process_repo [] two_pages_result (repo_node ''octo/old'' 5 0 []) = Inr two_pages_result"
proof -
  have a: "get_stats two_pages 0 (init ''octo'' (Some [''octo/old'']) None False None)
             = Some (Inr (two_pages_result, 2))"
    by code_simp
  have b: "\<not> stats_fetched (init ''octo'' (Some [''octo/old'']) None False None)"
    by (simp add: init_def)
  have c: "repos_f two_pages_result = Some [JStr ''octo/site'']" "stargazers_f two_pages_result = Some 2"
    "exclude_repos two_pages_result = [''octo/old'']"
    by (simp_all add: two_pages_result_def init_def)
  have site: "dict_get (repo_node ''octo/site'' 2 1 []) ''nameWithOwner'' JNull = Inr (JStr ''octo/site'')"
    and old: "dict_get (repo_node ''octo/old'' 5 0 []) ''nameWithOwner'' JNull = Inr (JStr ''octo/old'')"
    by (simp_all add: repo_node_def)
  have seen: "key_of (JStr ''octo/site'') \<in> key_of ` set [JStr ''octo/site'']
              \<or> in_excluded (exclude_repos two_pages_result) (JStr ''octo/site'')"
    and excluded: "key_of (JStr ''octo/old'') \<in> key_of ` set [JStr ''octo/site'']
              \<or> in_excluded (exclude_repos two_pages_result) (JStr ''octo/old'')"
    by (simp_all add: c in_excluded_def)
  note main = repositories_distinct_not_excluded_counted_once [OF a b]
  from main have skip: "\<forall>ex s repo nm rs.
            dict_get repo ''nameWithOwner'' JNull = Inr nm \<longrightarrow> repos_f s = Some rs \<longrightarrow>
            hashable nm \<longrightarrow>
            (key_of nm \<in> key_of ` set rs \<or> in_excluded (exclude_repos s) nm) \<longrightarrow>
            process_repo ex s repo = Inr s"
    by blast
  have h: "hashable (JStr ''octo/site'')" "hashable (JStr ''octo/old'')" by simp_all
  from skip [rule_format, OF site c(1) h(1) seen] skip [rule_format, OF old c(1) h(2) excluded] a c
  show ?thesis
    by simp
qed

subsection \<open>Language exclusion\<close>

lemma lower_char_folds: "\<forall>c. lower_char c = fold_case c"
  by code_simp

lemma lowered_excluded:
  "map lower_char nm \<in> set (map (map lower_char) excl) \<longleftrightarrow> (\<exists>x \<in> set excl. same_ignoring_case nm x)"
proof -
  have "lower_char = fold_case"
    using lower_char_folds by (intro ext) simp
  then show ?thesis
    by (auto simp: same_ignoring_case_def)
qed

lemma process_lang_cases:
  assumes "process_lang ex st lang = Inr st'"
  shows "st' = st \<or> (\<exists>nm langs e. map lower_char nm \<notin> set ex \<and> languages_f st = Some langs
           \<and> st' = st\<lparr>languages_f := Some (AList.update nm e langs)\<rparr>)"
  using assms unfolding process_lang_def bindE_eq_Inr
  by (auto simp: bindE_eq_Inr split: if_splits json.splits option.splits)

lemma process_lang_langs_inv:
  assumes "process_lang (map (map lower_char) excl) st lang = Inr st'" "langs_inv excl st"
  shows "langs_inv excl st'"
proof -
  from process_lang_cases [OF assms(1)] show ?thesis
  proof
    assume "st' = st"
    with assms(2) show ?thesis by simp
  next
    assume "\<exists>nm langs e. map lower_char nm \<notin> set (map (map lower_char) excl)
        \<and> languages_f st = Some langs \<and> st' = st\<lparr>languages_f := Some (AList.update nm e langs)\<rparr>"
    then obtain nm langs e where nm: "map lower_char nm \<notin> set (map (map lower_char) excl)"
      and l: "languages_f st = Some langs"
      and st': "st' = st\<lparr>languages_f := Some (AList.update nm e langs)\<rparr>"
      by blast
    from nm have nm': "\<forall>x \<in> set excl. \<not> same_ignoring_case nm x"
      using lowered_excluded [of nm excl] by blast
    have keys: "fst ` set (AList.update nm e langs) = insert nm (fst ` set langs)"
      by (simp add: dom_update)
    have mem: "fst kv = nm \<or> fst kv \<in> fst ` set langs" if "kv \<in> set (AList.update nm e langs)" for kv
    proof -
      from that have "fst kv \<in> fst ` set (AList.update nm e langs)" by (rule imageI)
      then show ?thesis by (simp only: keys insert_iff)
    qed
    from assms(2) l have old: "exclude_langs st = excl"
      "\<forall>kv \<in> set langs. \<forall>x \<in> set excl. \<not> same_ignoring_case (fst kv) x"
      by (auto simp: langs_inv_def)
    have "\<forall>kv \<in> set (AList.update nm e langs). \<forall>x \<in> set excl. \<not> same_ignoring_case (fst kv) x"
    proof (intro ballI)
      fix kv x assume kv: "kv \<in> set (AList.update nm e langs)" and x: "x \<in> set excl"
      from mem [OF kv] show "\<not> same_ignoring_case (fst kv) x"
      proof
        assume "fst kv = nm"
        with nm' x show ?thesis by simp
      next
        assume "fst kv \<in> fst ` set langs"
        then obtain kv0 where "kv0 \<in> set langs" "fst kv0 = fst kv" by auto
        with old(2) x show ?thesis by metis
      qed
    qed
    with old(1) st' show ?thesis
      by (simp add: langs_inv_def)
  qed
qed

lemma process_langs_langs_inv:
  assumes "foldE (process_lang (map (map lower_char) excl)) edges st = Inr st'" "langs_inv excl st"
  shows "langs_inv excl st'"
  using assms(1) assms(2)
  by (rule foldE_preserves [where P = "langs_inv excl", rotated]) (rule process_lang_langs_inv)

lemma count_repo_langs:
  assumes "count_repo ex st repo nm rs = Inr st'"
  shows "\<exists>edges s0. foldE (process_lang ex) edges s0 = Inr st'
           \<and> languages_f s0 = languages_f st \<and> exclude_langs s0 = exclude_langs st"
proof -
  from assms obtain edges sg' fk' where
    "foldE (process_lang ex) edges (st\<lparr>repos_f := Some (rs @ [nm]), stargazers_f := Some sg',
        forks_f := Some fk'\<rparr>) = Inr st'"
    unfolding count_repo_def bindE_eq_Inr by blast
  then show ?thesis
    by (intro exI [of _ edges] exI [of _ "st\<lparr>repos_f := Some (rs @ [nm]), stargazers_f := Some sg',
        forks_f := Some fk'\<rparr>"]) simp
qed

lemma process_repo_counted:
  assumes "process_repo ex st repo = Inr st'"
  shows "st' = st \<or> (\<exists>nm rs. count_repo ex st repo nm rs = Inr st')"
proof (cases "repo = JNull")
  case True
  with assms show ?thesis by (simp add: process_repo_def)
next
  case False
  with assms obtain nm where rest: "(case repos_f st of
           None \<Rightarrow> Inl TypeError
         | Some rs \<Rightarrow>
             bindE (set_contains rs nm) (\<lambda>seen.
               if seen \<or> in_excluded (exclude_repos st) nm then Inr st
               else count_repo ex st repo nm rs)) = Inr st'"
    by (auto simp: process_repo_def bindE_eq_Inr)
  then obtain rs where f: "repos_f st = Some rs"
    by (auto split: option.splits)
  with rest obtain seen where
    body: "(if seen \<or> in_excluded (exclude_repos st) nm then Inr st
               else count_repo ex st repo nm rs) = Inr st'"
    by (auto simp: bindE_eq_Inr)
  then show ?thesis
    by (cases "seen \<or> in_excluded (exclude_repos st) nm") auto
qed

lemma process_repo_langs_inv:
  assumes "process_repo (map (map lower_char) excl) st repo = Inr st'" "langs_inv excl st"
  shows "langs_inv excl st'"
proof -
  from process_repo_counted [OF assms(1)] show ?thesis
  proof
    assume "st' = st"
    with assms(2) show ?thesis by simp
  next
    assume "\<exists>nm rs. count_repo (map (map lower_char) excl) st repo nm rs = Inr st'"
    then obtain nm rs where "count_repo (map (map lower_char) excl) st repo nm rs = Inr st'"
      by blast
    from count_repo_langs [OF this] obtain edges s0 where
      f: "foldE (process_lang (map (map lower_char) excl)) edges s0 = Inr st'"
      and s0: "languages_f s0 = languages_f st" "exclude_langs s0 = exclude_langs st"
      by blast
    from assms(2) s0 have "langs_inv excl s0"
      by (simp add: langs_inv_def)
    with f show ?thesis by (rule process_langs_langs_inv)
  qed
qed

lemma process_repos_langs_inv:
  assumes "foldE (process_repo (map (map lower_char) excl)) nodes st = Inr st'" "langs_inv excl st"
  shows "langs_inv excl st'"
  using assms(1) assms(2)
  by (rule foldE_preserves [where P = "langs_inv excl", rotated]) (rule process_repo_langs_inv)

lemma page_step_own_exclusions:
  assumes "page_step st raw no nc = Inr (st', nxt)"
  shows "\<exists>nodes nm. foldE (process_repo (map (map lower_char) (exclude_langs st))) nodes
            (st\<lparr>name_f := nm\<rparr>) = Inr st'"
  using assms unfolding page_step_def Let_def bindE_eq_Inr
  by blast

lemma page_step_langs_inv:
  assumes "page_step st raw no nc = Inr (st', nxt)" "langs_inv excl st"
  shows "langs_inv excl st'"
proof -
  from assms(2) have e: "exclude_langs st = excl" by (simp add: langs_inv_def)
  from page_step_own_exclusions [OF assms(1)] e obtain nodes nm where
    f: "foldE (process_repo (map (map lower_char) excl)) nodes (st\<lparr>name_f := nm\<rparr>) = Inr st'"
    by auto
  from assms(2) have "langs_inv excl (st\<lparr>name_f := nm\<rparr>)"
    by (simp add: langs_inv_def)
  with f show ?thesis by (rule process_repos_langs_inv)
qed

lemma pages_loop_langs_inv_aux:
  assumes "pages_loop net i st no nc = Some y"
  shows "\<forall>st' i'. y = Inr (st', i') \<longrightarrow> langs_inv excl st \<longrightarrow> langs_inv excl st'"
proof (rule pages_loop.raw_induct [where P = "\<lambda>net i st no nc y.
         \<forall>st' i'. y = Inr (st', i') \<longrightarrow> langs_inv excl st \<longrightarrow> langs_inv excl st'", OF _ assms])
  fix loop :: "network \<Rightarrow> nat \<Rightarrow> stats \<Rightarrow> json \<Rightarrow> json \<Rightarrow> (error + stats \<times> nat) option"
    and net i st no nc y
  assume IH: "\<And>net i st no nc y. loop net i st no nc = Some y \<Longrightarrow>
                \<forall>st' i'. y = Inr (st', i') \<longrightarrow> langs_inv excl st \<longrightarrow> langs_inv excl st'"
    and step: "(case fetch_page net i st no nc of
                  Inl e \<Rightarrow> Some (Inl e)
                | Inr (st', i', None) \<Rightarrow> Some (Inr (st', i'))
                | Inr (st', i', Some (no', nc')) \<Rightarrow> loop net i' st' no' nc') = Some y"
  show "\<forall>st' i'. y = Inr (st', i') \<longrightarrow> langs_inv excl st \<longrightarrow> langs_inv excl st'"
  proof (intro allI impI)
    fix st' i'
    assume y: "y = Inr (st', i')" and inv: "langs_inv excl st"
    from step y obtain s1 i1 nxt where fp: "fetch_page net i st no nc = Inr (s1, i1, nxt)"
      by (cases "fetch_page net i st no nc") (auto split: prod.splits)
    from fetch_page_Inr [OF fp] inv have inv1: "langs_inv excl s1"
      using page_step_langs_inv by blast
    show "langs_inv excl st'"
    proof (cases nxt)
      case None
      with step fp y inv1 show ?thesis by simp
    next
      case (Some cs)
      obtain o' c' where "cs = (o', c')" by (cases cs) auto
      with step fp Some have "loop net i1 s1 o' c' = Some y" by simp
      from IH [OF this] y inv1 show ?thesis by blast
    qed
  qed
qed

lemma proportions_keys:
  assumes "proportions ls = Inr ls'"
  shows "map fst ls' = map fst ls"
proof -
  from assms obtain tot where "mapE (set_prop tot) ls = Inr ls'"
    by (auto simp: proportions_def bindE_eq_Inr)
  from mapE_Inr [OF this] have "list_all2 (\<lambda>kv kv'. fst kv' = fst kv) ls ls'"
    by (rule list_all2_mono) (auto dest: set_prop_keeps)
  then show ?thesis
    by (induction rule: list_all2_induct) auto
qed

lemma get_stats_langs_inv:
  assumes "get_stats net i st = Some (Inr (st', i'))" "\<not> stats_fetched st"
  shows "langs_inv (exclude_langs st) st'"
proof (cases "get_stats_enter st")
  case Waits
  with assms(1) show ?thesis by (simp add: get_stats_def)
next
  case (Fetched s)
  with assms(2) show ?thesis
    by (auto simp: get_stats_enter_def Let_def split: if_splits)
next
  case (Starts s)
  then have s: "langs_inv (exclude_langs st) s"
    by (auto simp: get_stats_enter_def Let_def langs_inv_def split: if_splits)
  from assms(1) Starts obtain s2 where loop: "pages_loop net i s JNull JNull = Some (Inr (s2, i'))"
    and ex: "get_stats_exit s2 = Inr st'"
    by (auto simp: get_stats_def bindE_eq_Inr split: option.splits sum.splits)
  from pages_loop_langs_inv_aux [OF loop] s have s2: "langs_inv (exclude_langs st) s2"
    by blast
  from ex obtain ls ls' where "languages_f s2 = Some ls" "proportions ls = Inr ls'"
    "languages_f st' = Some ls'" "exclude_langs st' = exclude_langs s2"
    by (auto simp: get_stats_exit_def bindE_eq_Inr split: option.splits)
  note fin = this
  from proportions_keys [OF fin(2)] have "set (map fst ls') = set (map fst ls)"
    by simp
  then have keys: "fst ` set ls' = fst ` set ls"
    by (simp only: set_map)
  from s2 fin(1) have old: "exclude_langs s2 = exclude_langs st"
    "\<forall>kv \<in> set ls. \<forall>x \<in> set (exclude_langs st). \<not> same_ignoring_case (fst kv) x"
    by (auto simp: langs_inv_def)
  have "\<forall>kv \<in> set ls'. \<forall>x \<in> set (exclude_langs st). \<not> same_ignoring_case (fst kv) x"
  proof (intro ballI)
    fix kv x assume kv: "kv \<in> set ls'" and x: "x \<in> set (exclude_langs st)"
    from kv have "fst kv \<in> fst ` set ls'" by (rule imageI)
    then have "fst kv \<in> fst ` set ls" by (simp only: keys)
    then obtain kv0 where "kv0 \<in> set ls" "fst kv0 = fst kv" by auto
    with old(2) x show "\<not> same_ignoring_case (fst kv) x" by metis
  qed
  with fin(3,4) old(1) show ?thesis
    by (simp add: langs_inv_def)
qed

lemma process_lang_skips:
  assumes "dict_get lang ''node'' (JObj []) = Inr node"
    "dict_get node ''name'' (JStr ''Other'') = Inr (JStr nm)"
    "x \<in> set excl" "same_ignoring_case nm x"
  shows "process_lang (map (map lower_char) excl) s lang = Inr s"
proof -
  from dict_get_Inr_dict [OF assms(1)] obtain kvs where "lang = JObj kvs" by blast
  then obtain sz where sz: "dict_get lang ''size'' (JInt 0) = Inr sz" by simp
  from assms(3,4) have "map lower_char nm \<in> set (map (map lower_char) excl)"
    using lowered_excluded [of nm excl] by blast
  with assms(1,2) sz show ?thesis
    by (simp add: process_lang_def)
qed

lemma process_lang_keeps_key:
  assumes "dict_get lang ''node'' (JObj []) = Inr node"
    "dict_get node ''name'' (JStr ''Other'') = Inr (JStr nm)"
    "\<forall>x \<in> set excl. \<not> same_ignoring_case nm x"
    "languages_f s = Some langs"
    "process_lang (map (map lower_char) excl) s lang = Inr s'"
  shows "\<exists>langs'. languages_f s' = Some langs' \<and> fst ` set langs' = insert nm (fst ` set langs)"
proof -
  from dict_get_Inr_dict [OF assms(1)] obtain kvs where "lang = JObj kvs" by blast
  then obtain sz where sz: "dict_get lang ''size'' (JInt 0) = Inr sz" by simp
  from assms(3) have "map lower_char nm \<notin> set (map (map lower_char) excl)"
    using lowered_excluded [of nm excl] by blast
  with assms(1,2,4,5) sz have body: "(case map_of langs nm of
         Some entry \<Rightarrow>
           bindE (py_iadd (size_l entry) sz) (\<lambda>sz'.
             Inr (s\<lparr>languages_f := Some (AList.update nm
                    (entry\<lparr>size_l := sz', occurrences := occurrences entry + 1\<rparr>) langs)\<rparr>))
       | None \<Rightarrow>
           bindE (dict_get node ''color'' JNull) (\<lambda>c.
             Inr (s\<lparr>languages_f := Some (AList.update nm
                    \<lparr>size_l = sz, occurrences = 1, color = c, prop_l = None\<rparr> langs)\<rparr>))) = Inr s'"
    by (simp add: process_lang_def)
  have "\<exists>e. s' = s\<lparr>languages_f := Some (AList.update nm e langs)\<rparr>"
  proof (cases "map_of langs nm")
    case None
    with body show ?thesis by (auto simp: bindE_eq_Inr)
  next
    case (Some entry)
    with body show ?thesis by (auto simp: bindE_eq_Inr)
  qed
  then show ?thesis
    by (auto simp: dom_update)
qed

text \<open>
  Claim C9. After a run of \<^verbatim>\<open>get_stats\<close> that fetches, no key of the language map matches
  an excluded name without regard to case. An edge whose name matches an excluded name in
  that sense leaves the object as it is; an edge whose name matches none makes its name, as
  the reply spells it, a key of the map. With \<^verbatim>\<open>HTML\<close> excluded, a repository whose edges are
  \<^verbatim>\<open>html\<close> of size 100 and \<^verbatim>\<open>Python\<close> of size 300 leaves a language map with the single key
  \<^verbatim>\<open>Python\<close> at 100 percent.
\<close>

theorem excluded_language_case_insensitive:
  assumes "get_stats net i st = Some (Inr (st', i'))" and "\<not> stats_fetched st"
  shows "(\<exists>langs. languages_f st' = Some langs
            \<and> (\<forall>kv \<in> set langs. \<forall>x \<in> set (exclude_langs st). \<not> same_ignoring_case (fst kv) x))
       \<and> (\<forall>excl s lang node nm x.
            dict_get lang ''node'' (JObj []) = Inr node \<longrightarrow>
            dict_get node ''name'' (JStr ''Other'') = Inr (JStr nm) \<longrightarrow>
            x \<in> set excl \<longrightarrow> same_ignoring_case nm x \<longrightarrow>
            process_lang (map (map lower_char) excl) s lang = Inr s)
       \<and> (\<forall>excl s s' lang node nm langs.
            dict_get lang ''node'' (JObj []) = Inr node \<longrightarrow>
            dict_get node ''name'' (JStr ''Other'') = Inr (JStr nm) \<longrightarrow>
            (\<forall>x \<in> set excl. \<not> same_ignoring_case nm x) \<longrightarrow>
            languages_f s = Some langs \<longrightarrow>
            process_lang (map (map lower_char) excl) s lang = Inr s' \<longrightarrow>
            (\<exists>langs'. languages_f s' = Some langs' \<and> fst ` set langs' = insert nm (fst ` set langs)))
       \<and> map_option (map_sum id fst)
            (languages_proportional
               (always (one_repo_page [lang_edge ''html'' 100, lang_edge ''Python'' 300])) 0
               (init ''octo'' None (Some [''HTML'']) False None)) = Some (Inr [(''Python'', 100)])"
proof (intro conjI)
  from get_stats_langs_inv [OF assms]
  show "\<exists>langs. languages_f st' = Some langs
            \<and> (\<forall>kv \<in> set langs. \<forall>x \<in> set (exclude_langs st). \<not> same_ignoring_case (fst kv) x)"
    by (simp add: langs_inv_def)
next
  show "\<forall>excl s lang node nm x.
            dict_get lang ''node'' (JObj []) = Inr node \<longrightarrow>
            dict_get node ''name'' (JStr ''Other'') = Inr (JStr nm) \<longrightarrow>
            x \<in> set excl \<longrightarrow> same_ignoring_case nm x \<longrightarrow>
            process_lang (map (map lower_char) excl) s lang = Inr s"
    using process_lang_skips by blast
next
  show "\<forall>excl s s' lang node nm langs.
            dict_get lang ''node'' (JObj []) = Inr node \<longrightarrow>
            dict_get node ''name'' (JStr ''Other'') = Inr (JStr nm) \<longrightarrow>
            (\<forall>x \<in> set excl. \<not> same_ignoring_case nm x) \<longrightarrow>
            languages_f s = Some langs \<longrightarrow>
            process_lang (map (map lower_char) excl) s lang = Inr s' \<longrightarrow>
            (\<exists>langs'. languages_f s' = Some langs' \<and> fst ` set langs' = insert nm (fst ` set langs))"
  proof (intro allI impI)
    fix excl s s' lang node nm langs
    assume "dict_get lang ''node'' (JObj []) = Inr node"
      "dict_get node ''name'' (JStr ''Other'') = Inr (JStr nm)"
      "\<forall>x \<in> set excl. \<not> same_ignoring_case nm x"
      "languages_f s = Some langs"
      "process_lang (map (map lower_char) excl) s lang = Inr s'"
    then show "\<exists>langs'. languages_f s' = Some langs' \<and> fst ` set langs' = insert nm (fst ` set langs)"
      by (rule process_lang_keeps_key)
  qed
next
  show "map_option (map_sum id fst)
            (languages_proportional
               (always (one_repo_page [lang_edge ''html'' 100, lang_edge ''Python'' 300])) 0
               (init ''octo'' None (Some [''HTML'']) False None)) = Some (Inr [(''Python'', 100)])"
    by code_simp
qed

theorem excluded_language_case_insensitive_witness:
  "map_option (map_sum id fst)
     (languages_proportional (always (one_repo_page [lang_edge ''HTML'' 100, lang_edge ''Python'' 300])) 0
        (init ''octo'' None (Some [''html'']) False None)) = Some (Inr [(''Python'', 100)])
   \<and> map_option (map_sum id fst)
     (languages_proportional (always (one_repo_page [lang_edge ''python'' 100, lang_edge ''Python'' 300])) 0
        (init ''octo'' None None False None)) = Some (Inr [(''python'', 25), (''Python'', 75)])
   \<and> same_ignoring_case ''JavaScript'' ''JAVASCRIPT''
   \<and> process_lang (map (map lower_char) [''JAVASCRIPT'']) (init ''octo'' None (Some [''JAVASCRIPT'']) False None)
        (lang_edge ''JavaScript'' 100) = Inr (init ''octo'' None (Some [''JAVASCRIPT'']) False None)"
proof -
  let ?net = "always (one_repo_page [lang_edge ''HTML'' 100, lang_edge ''Python'' 300])"
  let ?st = "init ''octo'' None (Some [''html'']) False None"
  define res where "res = (case get_stats ?net 0 ?st of Some (Inr p) \<Rightarrow> p | _ \<Rightarrow> (?st, 0))"
  have a: "get_stats ?net 0 ?st = Some (Inr (fst res, snd res))"
    unfolding res_def by code_simp
  have b: "\<not> stats_fetched ?st"
    by (simp add: init_def)
  have r1: "map_option (map_sum id fst) (languages_proportional ?net 0 ?st) = Some (Inr [(''Python'', 100)])"
    by code_simp
  have r2: "map_option (map_sum id fst)
     (languages_proportional (always (one_repo_page [lang_edge ''python'' 100, lang_edge ''Python'' 300])) 0
        (init ''octo'' None None False None)) = Some (Inr [(''python'', 25), (''Python'', 75)])"
    by code_simp
  have same: "same_ignoring_case ''JavaScript'' ''JAVASCRIPT''"
    by code_simp
  have node: "dict_get (lang_edge ''JavaScript'' 100) ''node'' (JObj [])
      = Inr (JObj [(''name'', JStr ''JavaScript''), (''color'', JNull)])"
    and nm: "dict_get (JObj [(''name'', JStr ''JavaScript''), (''color'', JNull)]) ''name'' (JStr ''Other'')
      = Inr (JStr ''JavaScript'')"
    by (simp_all add: lang_edge_def)
  have x: "''JAVASCRIPT'' \<in> set [''JAVASCRIPT'']" by simp
  note main = excluded_language_case_insensitive [OF a b]
  from main have "\<forall>excl s lang node nm x.
            dict_get lang ''node'' (JObj []) = Inr node \<longrightarrow>
            dict_get node ''name'' (JStr ''Other'') = Inr (JStr nm) \<longrightarrow>
            x \<in> set excl \<longrightarrow> same_ignoring_case nm x \<longrightarrow>
            process_lang (map (map lower_char) excl) s lang = Inr s"
    by (elim conjE)
  from this [rule_format, OF node nm x same]
  have skipped: "process_lang (map (map lower_char) [''JAVASCRIPT''])
        (init ''octo'' None (Some [''JAVASCRIPT'']) False None) (lang_edge ''JavaScript'' 100)
      = Inr (init ''octo'' None (Some [''JAVASCRIPT'']) False None)" .
  show ?thesis
    by (intro conjI) (rule r1, rule r2, rule same, rule skipped)
qed

subsection \<open>Total contributions\<close>

lemma reported_total_added:
  assumes "reported_total v = Some n"
  shows "add_year a v = Inr (a + n)"
proof -
  from assms obtain kvs where v: "v = JObj kvs"
    by (cases v) (simp_all add: reported_total_def)
  with assms obtain cal where cal: "map_of kvs ''contributionCalendar'' = Some cal"
    and t: "(case obj_member ''totalContributions'' cal of Some (JInt n) \<Rightarrow> Some n | _ \<Rightarrow> None) = Some n"
    by (auto simp: reported_total_def split: option.splits)
  from t obtain ckvs where c: "cal = JObj ckvs"
    by (cases cal) simp_all
  with t have "map_of ckvs ''totalContributions'' = Some (JInt n)"
    by (auto split: option.splits json.splits)
  with v cal c show ?thesis
    by (simp add: add_year_def int_iadd_def)
qed

lemma reported_totals_folded:
  "those (map reported_total vs) = Some ns \<Longrightarrow> foldE add_year vs a = Inr (a + sum_list ns)"
proof (induction vs arbitrary: ns a)
  case Nil
  then show ?case by simp
next
  case (Cons v vs)
  from Cons.prems obtain n ms where n: "reported_total v = Some n"
    and ms: "those (map reported_total vs) = Some ms" and ns: "ns = n # ms"
    by (auto split: option.splits)
  from Cons.IH [OF ms, of "a + n"] reported_total_added [OF n, of a] ns show ?case
    by (simp add: add.assoc)
qed

lemma reported_totals_values:
  assumes "reported_totals r = Some ns"
  shows "\<exists>vs. by_year_values r = Inr vs \<and> those (map reported_total vs) = Some ns"
proof -
  from assms obtain kvs where r: "r = JObj kvs"
    by (cases r) (simp_all add: reported_totals_def)
  with assms obtain d where d: "map_of kvs ''data'' = Some d"
    and rest: "(case obj_member ''viewer'' d of
             Some (JObj kvs) \<Rightarrow> those (map (\<lambda>kv. reported_total (snd kv)) (AList.clearjunk kvs))
           | _ \<Rightarrow> None) = Some ns"
    by (auto simp: reported_totals_def split: option.splits)
  from rest obtain dkvs where dk: "d = JObj dkvs"
    by (cases d) simp_all
  with rest obtain vkvs where v: "map_of dkvs ''viewer'' = Some (JObj vkvs)"
    and t: "those (map (\<lambda>kv. reported_total (snd kv)) (AList.clearjunk vkvs)) = Some ns"
    by (auto split: option.splits json.splits)
  from r d dk v have "by_year_values r = Inr (map snd (AList.clearjunk vkvs))"
    by (simp add: by_year_values_def viewer_of_def)
  with t show ?thesis
    by (simp add: comp_def)
qed

lemma contains_sub_middle: "contains_sub sub (a @ sub @ b)"
proof (induction a)
  case Nil
  show ?case
  proof (cases "sub @ b")
    case Nil
    then show ?thesis by simp
  next
    case (Cons c cs)
    have "take (length sub) (sub @ b) = sub" by simp
    then have "take (length sub) (c # cs) = sub" by (simp only: Cons)
    then have "contains_sub sub (c # cs)" by simp
    then show ?thesis by (simp only: Cons append_Nil)
  qed
next
  case (Cons x a)
  then show ?case by simp
qed

lemma join_lines_member: "b \<in> set bs \<Longrightarrow> \<exists>p q. join_lines bs = p @ b @ q"
proof (induction bs rule: join_lines.induct)
  case 1
  then show ?case by simp
next
  case (2 x)
  then have "join_lines [x] = [] @ b @ []" by simp
  then show ?case by blast
next
  case (3 x y ys)
  show ?case
  proof (cases "b = x")
    case True
    then have "join_lines (x # y # ys) = [] @ b @ ([CHR 0x0A] @ join_lines (y # ys))" by simp
    then show ?thesis by blast
  next
    case False
    with 3 obtain p q where "join_lines (y # ys) = p @ b @ q" by auto
    then have "join_lines (x # y # ys) = (x @ [CHR 0x0A] @ p) @ b @ q" by simp
    then show ?thesis by blast
  qed
qed

lemma mapE_member: "mapE f xs = Inr ys \<Longrightarrow> x \<in> set xs \<Longrightarrow> \<exists>y \<in> set ys. f x = Inr y"
  by (induction xs arbitrary: ys) (auto simp: bindE_eq_Inr)

lemma contribs_by_year_alias:
  assumes "contribs_by_year y = Inr b" "py_str y = Some s"
  shows "\<exists>p q. b = p @ year_alias s @ q"
proof -
  obtain h where h: "contribs_by_year_1 = h @ ''year''"
    by (simp add: contribs_by_year_1_def)
  obtain t where t: "contribs_by_year_2 = '': contributionsCollection('' @ t"
    by (simp add: contribs_by_year_2_def)
  from assms obtain n where "b = contribs_by_year_1 @ s @ contribs_by_year_2 @ s @ contribs_by_year_3 @
                 str_of_int (n + 1) @ contribs_by_year_4"
    by (auto simp: contribs_by_year_def bindE_eq_Inr)
  with h t have "b = h @ year_alias s @ (t @ s @ contribs_by_year_3 @ str_of_int (n + 1) @ contribs_by_year_4)"
    by (simp add: year_alias_def)
  then show ?thesis by blast
qed

lemma all_contribs_aliases:
  assumes "all_contribs years = Inr doc" "py_iter years = Inr ys" "y \<in> set ys" "py_str y = Some s"
  shows "contains_sub (year_alias s) doc"
proof -
  from assms(1,2) obtain blocks where m: "mapE contribs_by_year ys = Inr blocks"
    and doc: "doc = all_contribs_head @ join_lines blocks @ all_contribs_tail"
    by (auto simp: all_contribs_def bindE_eq_Inr)
  from mapE_member [OF m assms(3)] obtain b where b: "b \<in> set blocks" "contribs_by_year y = Inr b"
    by blast
  from contribs_by_year_alias [OF b(2) assms(4)] obtain p q where pq: "b = p @ year_alias s @ q"
    by blast
  from join_lines_member [OF b(1)] obtain p' q' where "join_lines blocks = p' @ b @ q'"
    by blast
  with doc pq have "doc = (all_contribs_head @ p' @ p) @ year_alias s @ (q @ q' @ all_contribs_tail)"
    by simp
  then show ?thesis
    using contains_sub_middle by metis
qed

lemma query_pair: "fst (query net i d) = r \<Longrightarrow> query net i d = (r, Suc i)"
  using query_counts [of net i d] by (cases "query net i d") simp

text \<open>
  Claim C8. On an object whose total is not yet set, \<^verbatim>\<open>total_contributions\<close> reads the
  years from the reply to its first query. When there are none it returns 0 after that one
  exchange and prints the warning. Otherwise it sends one batched query, which has an aliased
  sub-field for every year, and returns the sum of the totals that the reply to it reports
  for the years, after two exchanges. For the years 2020 and 2021 with 5 and 7 contributions
  the result is 12.
\<close>

theorem total_contributions_sums_years:
  assumes "total_contributions_f st = None"
    and "fst (query net i contrib_years) = Inr r"
    and "contribution_years r = Inr years"
  shows "(\<not> truthy years \<longrightarrow>
            total_contributions net i st =
              Inr ((0, st\<lparr>total_contributions_f := Some 0\<rparr>, Suc i),
                   [Fetching_total_contributions, Found_contribution_years years,
                    Warning_no_contribution_years]))
       \<and> (\<forall>doc ys y s.
            all_contribs years = Inr doc \<longrightarrow> py_iter years = Inr ys \<longrightarrow> y \<in> set ys \<longrightarrow>
            py_str y = Some s \<longrightarrow> contains_sub (year_alias s) doc)
       \<and> (\<forall>doc r2 ns.
            truthy years \<longrightarrow> all_contribs years = Inr doc \<longrightarrow>
            fst (query net (Suc i) doc) = Inr r2 \<longrightarrow> reported_totals r2 = Some ns \<longrightarrow>
            total_contributions net i st =
              Inr ((sum_list ns, st\<lparr>total_contributions_f := Some (sum_list ns)\<rparr>, Suc (Suc i)),
                   [Fetching_total_contributions, Found_contribution_years years,
                    Total_contributions_all_years (sum_list ns)]))"
proof -
  have q1: "query net i contrib_years = (Inr r, Suc i)"
    using assms(2) by (rule query_pair)
  have none: "total_contributions net i st =
              Inr ((0, st\<lparr>total_contributions_f := Some 0\<rparr>, Suc i),
                   [Fetching_total_contributions, Found_contribution_years years,
                    Warning_no_contribution_years])" if "\<not> truthy years"
    using that assms(1,3) q1 by (simp add: total_contributions_def)
  have named: "contains_sub (year_alias s) doc"
    if "all_contribs years = Inr doc" "py_iter years = Inr ys" "y \<in> set ys" "py_str y = Some s"
    for doc ys y s
    using that by (rule all_contribs_aliases)
  have some: "total_contributions net i st =
              Inr ((sum_list ns, st\<lparr>total_contributions_f := Some (sum_list ns)\<rparr>, Suc (Suc i)),
                   [Fetching_total_contributions, Found_contribution_years years,
                    Total_contributions_all_years (sum_list ns)])"
    if "truthy years" "all_contribs years = Inr doc" "fst (query net (Suc i) doc) = Inr r2"
      "reported_totals r2 = Some ns" for doc r2 ns
  proof -
    have q2: "query net (Suc i) doc = (Inr r2, Suc (Suc i))"
      using that(3) by (rule query_pair)
    from reported_totals_values [OF that(4)] obtain vs where vs: "by_year_values r2 = Inr vs"
      and t: "those (map reported_total vs) = Some ns" by blast
    from reported_totals_folded [OF t, of 0] have "foldE add_year vs 0 = Inr (sum_list ns)"
      by simp
    with that vs assms(1,3) q1 q2 show ?thesis
      by (simp add: total_contributions_def)
  qed
  from none named some show ?thesis by blast
qed

theorem total_contributions_sums_years_witness:
  "total_contributions years_net 0 (init ''octo'' None None False None) =
     Inr ((12, (init ''octo'' None None False None)\<lparr>total_contributions_f := Some 12\<rparr>, 2),
          [Fetching_total_contributions,
           Found_contribution_years (JList [JStr ''2020'', JStr ''2021'']),
           Total_contributions_all_years 12])
   \<and> reported_totals year_totals_reply = Some [5, 7]
   \<and> (\<exists>doc. all_contribs (JList [JStr ''2020'', JStr ''2021'']) = Inr doc
          \<and> contains_sub (year_alias ''2020'') doc \<and> contains_sub (year_alias ''2021'') doc)
   \<and> total_contributions (always (JObj [])) 0 (init ''octo'' None None False None) =
     Inr ((0, (init ''octo'' None None False None)\<lparr>total_contributions_f := Some 0\<rparr>, 1),
          [Fetching_total_contributions, Found_contribution_years (JList []),
           Warning_no_contribution_years])"
proof -
  let ?st = "init ''octo'' None None False None"
  let ?years = "JList [JStr ''2020'', JStr ''2021'']"
  define doc where "doc = (case all_contribs ?years of Inr d \<Rightarrow> d | Inl e \<Rightarrow> [])"
  have st: "total_contributions_f ?st = None"
    by (simp add: init_def)
  have q1: "fst (query years_net 0 contrib_years) = Inr years_reply"
    by (simp add: query_def years_net_def years_reply_def)
  have ys: "contribution_years years_reply = Inr ?years"
    by code_simp
  have t: "truthy ?years" by simp
  have d: "all_contribs ?years = Inr doc"
    unfolding doc_def by code_simp
  have q2: "fst (query years_net (Suc 0) doc) = Inr year_totals_reply"
    by (simp add: query_def years_net_def year_totals_reply_def)
  have n: "reported_totals year_totals_reply = Some [5, 7]"
    by code_simp
  have q0: "fst (query (always (JObj [])) 0 contrib_years) = Inr (JObj [])"
    by (simp add: query_def always_def)
  have y0: "contribution_years (JObj []) = Inr (JList [])"
    by code_simp
  note main = total_contributions_sums_years [OF st q1 ys]
  from main have "\<forall>doc r2 ns.
            truthy ?years \<longrightarrow> all_contribs ?years = Inr doc \<longrightarrow>
            fst (query years_net (Suc 0) doc) = Inr r2 \<longrightarrow> reported_totals r2 = Some ns \<longrightarrow>
            total_contributions years_net 0 ?st =
              Inr ((sum_list ns, ?st\<lparr>total_contributions_f := Some (sum_list ns)\<rparr>, Suc (Suc 0)),
                   [Fetching_total_contributions, Found_contribution_years ?years,
                    Total_contributions_all_years (sum_list ns)])"
    by blast
  from this [rule_format, OF t d q2 n]
  have first: "total_contributions years_net 0 ?st =
     Inr ((12, ?st\<lparr>total_contributions_f := Some 12\<rparr>, 2),
          [Fetching_total_contributions, Found_contribution_years ?years,
           Total_contributions_all_years 12])"
    by simp
  from main have al: "\<forall>doc ys y s.
            all_contribs ?years = Inr doc \<longrightarrow> py_iter ?years = Inr ys \<longrightarrow> y \<in> set ys \<longrightarrow>
            py_str y = Some s \<longrightarrow> contains_sub (year_alias s) doc"
    by blast
  have it: "py_iter ?years = Inr [JStr ''2020'', JStr ''2021'']" by simp
  have "contains_sub (year_alias ''2020'') doc"
    using al [rule_format, OF d it, of "JStr ''2020''" "''2020''"] by simp
  moreover have "contains_sub (year_alias ''2021'') doc"
    using al [rule_format, OF d it, of "JStr ''2021''" "''2021''"] by simp
  ultimately have aliases: "\<exists>doc. all_contribs ?years = Inr doc
          \<and> contains_sub (year_alias ''2020'') doc \<and> contains_sub (year_alias ''2021'') doc"
    using d by blast
  from total_contributions_sums_years [OF st q0 y0]
  have second: "total_contributions (always (JObj [])) 0 ?st =
     Inr ((0, ?st\<lparr>total_contributions_f := Some 0\<rparr>, 1),
          [Fetching_total_contributions, Found_contribution_years (JList []),
           Warning_no_contribution_years])"
    by simp
  from first n aliases second show ?thesis by blast
qed

end
